theory Spec2Isabelle
  imports Complex_Main "HOL-Library.AList"
begin

section \<open>The list widget of \<^verbatim>\<open>widget/list.go\<close>\<close>

text \<open>
  The widget keeps a scroll offset, a sparse map of per-item measures and a selection;
  its layout keeps the visible window: the items mounted for the indices that intersect
  the viewport, taken from and returned to a pool.

  Conventions of the embedding.
  \<^item> Go's \<^verbatim>\<open>float32\<close> extents are the reals: rounding, infinities and NaN are not
    modelled. Where the template extent and the padding are both zero Go divides by
    zero and computes with an infinity or NaN, and the model with HOL's \<open>x / 0 = 0\<close>;
    the theorems on recomputes hold for whatever window is computed, and the scenarios
    divide by 22.
  \<^item> Go's \<^verbatim>\<open>int\<close> is \<open>int\<close>; slice positions are \<open>nat\<close>.
  \<^item> Pointers to list items are references (\<open>nat\<close>) into a store \<open>listItems\<close>.
  \<^item> A callback field is the fact that it is set; each call of a callback, of the
    logger, of the item factory and of the pool is recorded, in order, in \<open>events\<close>.
    Callbacks are taken not to call back into the widget.
  \<^item> A run-time panic is the value \<open>Inl\<close> of the result.
  \<^item> Locks, the pooled scratch slices (\<^verbatim>\<open>slicePool\<close>) and the clearing of stale slice
    slots (\<^verbatim>\<open>nilOldSliceData\<close>) have no effect on the values below and are left out.
\<close>

subsection \<open>Data\<close>

type_synonym ListItemID = int

type_synonym item_ref = nat

datatype Orientation = Horizontal | Vertical

record Size =
  Width :: real
  Height :: real

record Position =
  X :: real
  Y :: real

definition NewSize :: "real \<Rightarrow> real \<Rightarrow> Size" where
  "NewSize w h = \<lparr>Width = w, Height = h\<rparr>"

definition NewPos :: "real \<Rightarrow> real \<Rightarrow> Position" where
  "NewPos x y = \<lparr>X = x, Y = y\<rparr>"

text \<open>The scroll container, as far as the list reads and writes it.\<close>

record Scroll =
  Offset :: Position
  ScrollSize :: Size

text \<open>\<^verbatim>\<open>listItem\<close>: the fields of the struct, with the position and size of its base widget.
  \<open>onTapped\<close> holds the index captured by the closure that \<^verbatim>\<open>setupListItem\<close> installs.\<close>

record listItem =
  itemPosition :: Position
  itemSize :: Size
  hovered :: bool
  itemSelected :: bool
  onTapped :: "ListItemID option"

record Separator =
  sepPosition :: Position
  sepSize :: Size
  sepHidden :: bool

record listItemAndID =
  item :: item_ref
  itemID :: ListItemID

datatype CanvasObject = ItemObject item_ref | SeparatorObject Separator

datatype event =
    CreateItemCall
  | UpdateItemCall ListItemID item_ref
  | OnSelectedCall ListItemID
  | OnUnselectedCall ListItemID
  | LogError
  | PoolObtain "item_ref option"
  | PoolRelease item_ref

datatype panic = NilPointer | NilInterfaceConversion | IndexOutOfRange

text \<open>
  The fields of \<^verbatim>\<open>List\<close> (with the size of its base widget and the two theme sizes it
  reads), those of its \<^verbatim>\<open>listLayout\<close>, the objects of the scrolled container, the store of
  list items and the trace of calls.
  \<open>CreateItem = Some m\<close> is a factory whose objects have minimum size \<open>m\<close>;
  \<open>Length = Some n\<close> is a length function that returns \<open>n\<close>.
\<close>

record ListState =
  Length :: "int option"
  CreateItem :: "Size option"
  UpdateItem :: bool
  OnSelected :: bool
  OnUnselected :: bool
  HideSeparators :: bool
  currentFocus :: ListItemID
  focused :: bool
  scroller :: "Scroll option"
  selected :: "ListItemID list"
  itemMin :: Size
  itemMeasures :: "(ListItemID \<times> real) list"
  offset :: real
  orientation :: Orientation
  widgetSize :: Size
  themePadding :: real
  themeSeparatorThickness :: real
  separators :: "Separator list"
  children :: "item_ref list"
  itemPool :: "item_ref list"
  visible :: "listItemAndID list"
  visibleItemMeasures :: "real list"
  Objects :: "CanvasObject list"
  listItems :: "item_ref \<Rightarrow> listItem"
  nextItem :: item_ref
  events :: "event list"

subsection \<open>The visible window\<close>

text \<open>The length the callers use: \<^verbatim>\<open>length := 0; if f := l.Length; f != nil { length = f() }\<close>.\<close>

definition listLength :: "ListState \<Rightarrow> int" where
  "listLength s = (case Length s of None \<Rightarrow> 0 | Some n \<Rightarrow> n)"

text \<open>The measure of item \<open>i\<close> as the scans read it:
  \<^verbatim>\<open>measure := itemMeasure; if m, ok := l.list.itemMeasures[i]; ok { measure = m }\<close>.\<close>

definition effectiveMeasure :: "(ListItemID \<times> real) list \<Rightarrow> real \<Rightarrow> ListItemID \<Rightarrow> real" where
  "effectiveMeasure ims itemMeasure i =
     (case map_of ims i of Some m \<Rightarrow> m | None \<Rightarrow> itemMeasure)"

text \<open>
  The scan of \<^verbatim>\<open>calculateVisibleItemMeasures\<close> when measures are overridden: the loop
  \<^verbatim>\<open>for i := 0; i < length; i++\<close> with its \<^verbatim>\<open>break\<close>. The loop variables are \<open>i\<close>, the
  running \<open>offs\<close>, the results \<open>off\<close> and \<open>minItem\<close>, \<open>isVisible\<close> and the measures
  appended so far.
\<close>

function scanItems ::
  "(ListItemID \<times> real) list \<Rightarrow> real \<Rightarrow> real \<Rightarrow> real \<Rightarrow> real \<Rightarrow> int \<Rightarrow>
   int \<Rightarrow> real \<Rightarrow> real \<Rightarrow> int \<Rightarrow> bool \<Rightarrow> real list \<Rightarrow> real \<times> int \<times> real list" where
  "scanItems ims itemMeasure padding listOffset scrollerMeasure len i offs off minItem isVisible vis =
     (if i < len then
        (let measure = effectiveMeasure ims itemMeasure i;
             beforeScroll = (offs \<le> listOffset - measure - padding);
             atScroll = (\<not> beforeScroll \<and> offs \<le> listOffset);
             minItem' = (if atScroll then i else minItem);
             off' = (if atScroll then offs else off);
             isVisible' = (atScroll \<or> isVisible)
         in if offs \<ge> listOffset + scrollerMeasure then (off', minItem', vis)
            else scanItems ims itemMeasure padding listOffset scrollerMeasure len
                   (i + 1) (offs + measure + padding) off' minItem' isVisible'
                   (if isVisible' then vis @ [measure] else vis))
      else (off, minItem, vis))"
  by pat_completeness auto
termination
  by (relation "measure (\<lambda>(ims, itemMeasure, padding, listOffset, scrollerMeasure, len,
                           i, offs, off, minItem, isVisible, vis). nat (len - i))") auto

declare scanItems.simps [simp del]

text \<open>The measure of the scroller along the scroll axis.\<close>

definition scrollerMeasureOf :: "Orientation \<Rightarrow> Scroll \<Rightarrow> real" where
  "scrollerMeasureOf ori sc =
     (if ori = Horizontal then Width (ScrollSize sc) else Height (ScrollSize sc))"

text \<open>
  \<^verbatim>\<open>calculateVisibleItemMeasures(itemMeasure, length, th)\<close> returns \<open>(off, minItem)\<close> and fills
  \<open>visibleItemMeasures\<close>. With a scroller measure \<open>\<le> 0\<close> it returns the zero results
  before the slice is reset. The theme is read from the state.
\<close>

definition calculateVisibleItemMeasures ::
  "real \<Rightarrow> int \<Rightarrow> ListState \<Rightarrow> panic + ((real \<times> int) \<times> ListState)" where
  "calculateVisibleItemMeasures itemMeasure len s =
     (case scroller s of
        None \<Rightarrow> Inl NilPointer
      | Some sc \<Rightarrow>
          (let scrollerMeasure = scrollerMeasureOf (orientation s) sc in
           if scrollerMeasure \<le> 0 then Inr ((0, 0), s)
           else
             (let padding = themePadding s in
              if length (itemMeasures s) = 0 then
                (let paddedItemMeasure = itemMeasure + padding;
                     off = of_int \<lfloor>offset s / paddedItemMeasure\<rfloor> * paddedItemMeasure;
                     minItem = \<lfloor>off / paddedItemMeasure\<rfloor>;
                     maxItem = \<lceil>(off + scrollerMeasure) / paddedItemMeasure\<rceil>;
                     minItem1 = (if minItem > len - 1 then len - 1 else minItem);
                     minItem2 = (if minItem1 < 0 then 0 else minItem1);
                     off2 = (if minItem1 < 0 then 0 else off);
                     maxItem2 = (if maxItem > len - 1 then len - 1 else maxItem)
                 in Inr ((off2, minItem2),
                         s\<lparr>visibleItemMeasures :=
                              replicate (nat (maxItem2 - minItem2 + 1)) itemMeasure\<rparr>))
              else
                (case scanItems (itemMeasures s) itemMeasure padding (offset s) scrollerMeasure
                        len 0 0 0 0 False [] of
                   (off, minItem, vis) \<Rightarrow>
                     Inr ((off, minItem), s\<lparr>visibleItemMeasures := vis\<rparr>)))))"

text \<open>The indices of the window: \<^verbatim>\<open>item := index + minItem\<close> for each position of
  \<open>visibleItemMeasures\<close>.\<close>

definition windowIndices :: "int \<Rightarrow> real list \<Rightarrow> ListItemID list" where
  "windowIndices minItem vis = map (\<lambda>index. int index + minItem) [0..<length vis]"

subsection \<open>Looking an index up in the visible set\<close>

text \<open>
  Go's \<^verbatim>\<open>sort.Search(n, f)\<close>: the binary search of the standard library,
  \<^verbatim>\<open>i, j := 0, n; for i < j { h := int(uint(i+j) >> 1); if !f(h) { i = h + 1 } else { j = h } }\<close>,
  which returns \<open>i\<close>.
\<close>

function sortSearchLoop :: "(nat \<Rightarrow> bool) \<Rightarrow> nat \<Rightarrow> nat \<Rightarrow> nat" where
  "sortSearchLoop f i j =
     (if i < j then
        (let h = (i + j) div 2
         in if \<not> f h then sortSearchLoop f (h + 1) j else sortSearchLoop f i h)
      else i)"
  by pat_completeness auto
termination
  by (relation "measure (\<lambda>(f, i, j). j - i)") auto

declare sortSearchLoop.simps [simp del]

definition sortSearch :: "nat \<Rightarrow> (nat \<Rightarrow> bool) \<Rightarrow> nat" where
  "sortSearch n f = sortSearchLoop f 0 n"

text \<open>\<^verbatim>\<open>searchVisible(visible, id)\<close>: \<open>Some item\<close> is \<^verbatim>\<open>(item, true)\<close>, \<open>None\<close> is
  \<^verbatim>\<open>(nil, false)\<close>. The search reads \<open>visible\<close> only at positions below its length.\<close>

definition searchVisible :: "listItemAndID list \<Rightarrow> ListItemID \<Rightarrow> item_ref option" where
  "searchVisible vis ident =
     (let ln = length vis;
          idx = sortSearch ln (\<lambda>i. itemID (vis ! i) \<ge> ident)
      in if idx < ln \<and> itemID (vis ! idx) = ident then Some (item (vis ! idx)) else None)"

subsection \<open>The item pool and the item factory\<close>

text \<open>
  Modelled from the spec: the Item Pool (\<^verbatim>\<open>syncPool\<close>, whose code is not in
  \<^verbatim>\<open>list.go\<close>). Obtain returns an instance or absent; a released instance remains
  available until it is obtained again; there is no eviction. The pool is a list, and
  Obtain takes its first instance.
\<close>

definition poolObtain :: "ListState \<Rightarrow> item_ref option \<times> ListState" where
  "poolObtain s =
     (case itemPool s of
        [] \<Rightarrow> (None, s\<lparr>events := events s @ [PoolObtain None]\<rparr>)
      | r # rest \<Rightarrow> (Some r, s\<lparr>itemPool := rest, events := events s @ [PoolObtain (Some r)]\<rparr>))"

definition poolRelease :: "item_ref \<Rightarrow> ListState \<Rightarrow> ListState" where
  "poolRelease r s = s\<lparr>itemPool := r # itemPool s, events := events s @ [PoolRelease r]\<rparr>"

definition zeroPosition :: Position where
  "zeroPosition = NewPos 0 0"

definition zeroSize :: Size where
  "zeroSize = NewSize 0 0"

text \<open>\<^verbatim>\<open>newListItem(child, nil)\<close>: the struct literal sets \<open>child\<close> and a nil \<open>onTapped\<close>;
  the other fields are zero.\<close>

definition newListItem :: listItem where
  "newListItem = \<lparr>itemPosition = zeroPosition, itemSize = zeroSize, hovered = False,
                   itemSelected = False, onTapped = None\<rparr>"

text \<open>\<^verbatim>\<open>createItemAndApplyThemeScope(f, scope)\<close> calls the factory; the theme scope and the
  refresh of the new object are rendering. It is called where \<open>f\<close> is not nil, and returns
  the minimum size of the object.\<close>

definition createItemAndApplyThemeScope :: "Size \<Rightarrow> ListState \<Rightarrow> Size \<times> ListState" where
  "createItemAndApplyThemeScope m s = (m, s\<lparr>events := events s @ [CreateItemCall]\<rparr>)"

text \<open>
  \<^verbatim>\<open>getItem\<close>: an instance of the pool, else a new one of the factory. With an empty pool
  and no factory, \<^verbatim>\<open>item\<close> is a nil interface and \<^verbatim>\<open>item.(*listItem)\<close> panics.
\<close>

definition getItem :: "ListState \<Rightarrow> panic + (item_ref \<times> ListState)" where
  "getItem s =
     (case poolObtain s of
        (Some r, s1) \<Rightarrow> Inr (r, s1)
      | (None, s1) \<Rightarrow>
          (case CreateItem s1 of
             None \<Rightarrow> Inl NilInterfaceConversion
           | Some m \<Rightarrow>
               (case createItemAndApplyThemeScope m s1 of
                  (_, s2) \<Rightarrow>
                    (let r = nextItem s2
                     in Inr (r, s2\<lparr>listItems := (listItems s2)(r := newListItem),
                                    nextItem := Suc r\<rparr>)))))"

subsection \<open>Configuring an item\<close>

definition moveItem :: "item_ref \<Rightarrow> Position \<Rightarrow> ListState \<Rightarrow> ListState" where
  "moveItem c p s = s\<lparr>listItems := (listItems s)(c := (listItems s c)\<lparr>itemPosition := p\<rparr>)\<rparr>"

definition resizeItem :: "item_ref \<Rightarrow> Size \<Rightarrow> ListState \<Rightarrow> ListState" where
  "resizeItem c sz s = s\<lparr>listItems := (listItems s)(c := (listItems s c)\<lparr>itemSize := sz\<rparr>)\<rparr>"

text \<open>\<^verbatim>\<open>setupListItem(li, id, focus)\<close>. \<^verbatim>\<open>li.Refresh()\<close> redraws and is left out.\<close>

definition setupListItem :: "item_ref \<Rightarrow> ListItemID \<Rightarrow> bool \<Rightarrow> ListState \<Rightarrow> ListState" where
  "setupListItem li ident focus s =
     (let it = listItems s li;
          previousIndicator = itemSelected it;
          sel = (ident \<in> set (selected s));
          hov = (if focus then True
                 else if previousIndicator \<noteq> sel \<or> hovered it then False
                 else hovered it);
          it' = it\<lparr>itemSelected := sel, hovered := hov, onTapped := Some ident\<rparr>
      in s\<lparr>listItems := (listItems s)(li := it'),
           events := events s @ (if UpdateItem s then [UpdateItemCall ident li] else [])\<rparr>)"

subsection \<open>Separators\<close>

text \<open>
  Modelled from the spec: a divider element created on demand (\<^verbatim>\<open>NewSeparator\<close>, whose
  code is not in \<^verbatim>\<open>list.go\<close>). A new element is at the origin, has no extent and is shown.
\<close>

definition NewSeparator :: Separator where
  "NewSeparator = \<lparr>sepPosition = zeroPosition, sepSize = zeroSize, sepHidden = False\<rparr>"

text \<open>
  The loop \<^verbatim>\<open>for i, child := range l.children\<close> of \<^verbatim>\<open>updateSeparators\<close>, over the children
  paired with their positions: \<^verbatim>\<open>l.separators[i]\<close> is moved, resized and shown for \<open>i > 0\<close>.
  An index beyond the separators is Go's index-out-of-range panic.
\<close>

fun placeSeparators ::
  "(item_ref \<Rightarrow> listItem) \<Rightarrow> Orientation \<Rightarrow> Size \<Rightarrow> real \<Rightarrow> real \<Rightarrow>
   (nat \<times> item_ref) list \<Rightarrow> Separator list \<Rightarrow> panic + Separator list" where
  "placeSeparators its ori wsize separatorThickness dividerOff [] seps = Inr seps"
| "placeSeparators its ori wsize separatorThickness dividerOff ((i, child) # rest) seps =
     (if i = 0 then placeSeparators its ori wsize separatorThickness dividerOff rest seps
      else if i \<ge> length seps then Inl IndexOutOfRange
      else
        (let position = (if ori = Horizontal
                         then NewPos (X (itemPosition (its child)) - dividerOff) 0
                         else NewPos 0 (Y (itemPosition (its child)) - dividerOff));
             sz = (if ori = Horizontal
                   then NewSize separatorThickness (Height wsize)
                   else NewSize (Width wsize) separatorThickness)
         in placeSeparators its ori wsize separatorThickness dividerOff rest
              (seps[i := (seps ! i)\<lparr>sepPosition := position, sepSize := sz,
                                      sepHidden := False\<rparr>])))"

text \<open>
  \<^verbatim>\<open>updateSeparators\<close>. With more than one child the slice is cut to, or filled up to, the
  number of children; the separator at position 0 is never placed.
\<close>

definition updateSeparators :: "ListState \<Rightarrow> panic + ListState" where
  "updateSeparators s =
     (if HideSeparators s then Inr (s\<lparr>separators := []\<rparr>)
      else
        (let lenChildren = length (children s);
             seps1 = (if lenChildren > 1 then
                        (let lenSep = length (separators s)
                         in if lenSep > lenChildren then take lenChildren (separators s)
                            else separators s @ replicate (lenChildren - lenSep) NewSeparator)
                      else []);
             separatorThickness = themeSeparatorThickness s;
             dividerOff = (themePadding s + separatorThickness) / 2
         in case placeSeparators (listItems s) (orientation s) (widgetSize s)
                   separatorThickness dividerOff
                   (zip [0..<length (children s)] (children s)) seps1 of
              Inl e \<Rightarrow> Inl e
            | Inr seps2 \<Rightarrow> Inr (s\<lparr>separators := seps2\<rparr>)))"

subsection \<open>The window recompute\<close>

text \<open>
  The first loop of \<^verbatim>\<open>updateList\<close>, \<^verbatim>\<open>for index, itemMeasure := range l.visibleItemMeasures\<close>:
  an index that was visible keeps its item, any other index gets one from \<open>getItem\<close>.
  \<open>getItem\<close> returns an item or panics, so the \<^verbatim>\<open>continue\<close> on a nil item is never taken.
\<close>

fun mountItems ::
  "listItemAndID list \<Rightarrow> int \<Rightarrow> real \<Rightarrow> real \<Rightarrow> nat \<Rightarrow> real \<Rightarrow> real list \<Rightarrow>
   ListState \<Rightarrow> panic + ListState" where
  "mountItems wasVisible minItem measure' separatorThickness index axis [] s = Inr s"
| "mountItems wasVisible minItem measure' separatorThickness index axis (itemMeasure # rest) s =
     (let ident = int index + minItem;
          sz = (if orientation s = Horizontal then NewSize itemMeasure measure'
                else NewSize measure' itemMeasure);
          position = (if orientation s = Horizontal then NewPos axis 0 else NewPos 0 axis)
      in case (case searchVisible wasVisible ident of
                 Some c \<Rightarrow> Inr (c, s)
               | None \<Rightarrow>
                   (case getItem s of
                      Inl e \<Rightarrow> Inl e
                    | Inr (c, s1) \<Rightarrow> Inr (c, resizeItem c sz s1))) of
           Inl e \<Rightarrow> Inl e
         | Inr (c, s1) \<Rightarrow>
             (let s2 = resizeItem c sz (moveItem c position s1)
              in mountItems wasVisible minItem measure' separatorThickness (Suc index)
                   (axis + itemMeasure + separatorThickness) rest
                   (s2\<lparr>visible := visible s2 @ [\<lparr>item = c, itemID = ident\<rparr>],
                       children := children s2 @ [c]\<rparr>)))"

text \<open>The second loop: an item whose index left the window goes back to the pool.\<close>

fun releaseItems :: "listItemAndID list \<Rightarrow> ListState \<Rightarrow> ListState" where
  "releaseItems [] s = s"
| "releaseItems (wasVis # rest) s =
     releaseItems rest
       (case searchVisible (visible s) (itemID wasVis) of
          Some _ \<Rightarrow> s
        | None \<Rightarrow> poolRelease (item wasVis) s)"

text \<open>The last loops, over the copy of the visible set: with \<open>newOnly\<close> the items whose
  index was not visible before are set up, without it all of them.\<close>

fun setupItems :: "bool \<Rightarrow> listItemAndID list \<Rightarrow> listItemAndID list \<Rightarrow> ListState \<Rightarrow> ListState" where
  "setupItems newOnly wasVisible [] s = s"
| "setupItems newOnly wasVisible (vis # rest) s =
     setupItems newOnly wasVisible rest
       (if newOnly \<and> searchVisible wasVisible (itemID vis) \<noteq> None then s
        else setupListItem (item vis) (itemID vis)
               (focused s \<and> currentFocus s = itemID vis) s)"

text \<open>
  \<^verbatim>\<open>updateList(newOnly)\<close>. It returns early, with nothing but \<open>visibleItemMeasures\<close> and
  the log touched, when no measure was computed for a list that has items.
\<close>

definition updateList :: "bool \<Rightarrow> ListState \<Rightarrow> panic + ListState" where
  "updateList newOnly s =
     (let separatorThickness = themePadding s;
          len = listLength s;
          s0 = (if \<not> UpdateItem s then s\<lparr>events := events s @ [LogError]\<rparr> else s);
          wasVisible = visible s0;
          measure = (if orientation s0 = Horizontal then Height (widgetSize s0)
                     else Width (widgetSize s0));
          minItemMeasure = (if orientation s0 = Horizontal then Width (itemMin s0)
                            else Height (itemMin s0))
      in case calculateVisibleItemMeasures minItemMeasure len s0 of
           Inl e \<Rightarrow> Inl e
         | Inr ((off, minItem), s1) \<Rightarrow>
             if length (visibleItemMeasures s1) = 0 \<and> len > 0 then Inr s1
             else
               (case mountItems wasVisible minItem measure separatorThickness 0 off
                       (visibleItemMeasures s1) (s1\<lparr>visible := [], children := []\<rparr>) of
                  Inl e \<Rightarrow> Inl e
                | Inr s2 \<Rightarrow>
                    (case updateSeparators (releaseItems wasVisible s2) of
                       Inl e \<Rightarrow> Inl e
                     | Inr s3 \<Rightarrow>
                         (let s4 = s3\<lparr>Objects := map ItemObject (children s3) @
                                                   map SeparatorObject (separators s3)\<rparr>
                          in Inr (setupItems newOnly wasVisible (visible s4) s4)))))"

subsection \<open>Scrolling and refreshing\<close>

text \<open>\<^verbatim>\<open>offsetUpdated(pos)\<close> of the layout, which is also the \<^verbatim>\<open>offsetUpdated\<close> field of the
  list: a changed offset is stored and the window recomputed for new items only.\<close>

definition offsetUpdated :: "Position \<Rightarrow> ListState \<Rightarrow> panic + ListState" where
  "offsetUpdated pos s =
     (let off = (if orientation s = Horizontal then X pos else Y pos)
      in if offset s = off then Inr s
         else updateList True (s\<lparr>offset := off\<rparr>))"

text \<open>The loop \<^verbatim>\<open>for i := 0; i < id; i++\<close> of \<^verbatim>\<open>scrollTo\<close>: the running \<open>axis\<close> and the
  measure of the last item passed.\<close>

definition scrollToLoop ::
  "(ListItemID \<times> real) list \<Rightarrow> real \<Rightarrow> real \<Rightarrow> ListItemID \<Rightarrow> real \<times> real \<Rightarrow> real \<times> real" where
  "scrollToLoop ims itemMeasure separatorThickness ident start =
     fold (\<lambda>i (axis, lastItemMeasure).
             (let w = effectiveMeasure ims itemMeasure (int i)
              in (axis + w + separatorThickness, w)))
          [0..<nat ident] start"

text \<open>
  \<^verbatim>\<open>scrollTo(id)\<close>. The source has one branch for each orientation, the same but for the
  axis; here the axis is selected by \<open>orientation\<close>: \<open>itemMeasure\<close> is the template's width
  or height, \<open>cur\<close> the scroller's offset and \<open>view\<close> its size along the axis.
\<close>

definition scrollTo :: "ListItemID \<Rightarrow> ListState \<Rightarrow> panic + ListState" where
  "scrollTo ident s =
     (case scroller s of
        None \<Rightarrow> Inr s
      | Some sc \<Rightarrow>
          (let separatorThickness = themePadding s;
               horizontal = (orientation s = Horizontal);
               itemMeasure = (if horizontal then Width (itemMin s) else Height (itemMin s));
               cur = (if horizontal then X (Offset sc) else Y (Offset sc));
               view = (if horizontal then Width (ScrollSize sc) else Height (ScrollSize sc));
               (axis, lastItemMeasure) =
                  (if length (itemMeasures s) = 0
                   then (of_int ident * itemMeasure + of_int ident * separatorThickness,
                         itemMeasure)
                   else scrollToLoop (itemMeasures s) itemMeasure separatorThickness ident
                          (0, itemMeasure));
               new = (if axis < cur then axis
                      else if axis + itemMeasure > cur + view then axis + lastItemMeasure - view
                      else cur);
               sc' = (if horizontal then sc\<lparr>Offset := (Offset sc)\<lparr>X := new\<rparr>\<rparr>
                      else sc\<lparr>Offset := (Offset sc)\<lparr>Y := new\<rparr>\<rparr>)
           in offsetUpdated (Offset sc') (s\<lparr>scroller := Some sc'\<rparr>)))"

text \<open>
  Modelled from the spec: the scroll container (\<^verbatim>\<open>widget.Scroll\<close>, whose code is not in
  \<^verbatim>\<open>list.go\<close>) reports the size it was given by \<^verbatim>\<open>Resize\<close>.
\<close>

definition scrollResize :: "Size \<Rightarrow> Scroll \<Rightarrow> Scroll" where
  "scrollResize sz sc = sc\<lparr>ScrollSize := sz\<rparr>"

text \<open>
  \<^verbatim>\<open>listRenderer.Refresh\<close>: the template is measured again, the scroller is given the size
  of the list (\<^verbatim>\<open>Layout\<close>) and the window is recomputed in full. Redrawing is left out.
\<close>

definition listRendererRefresh :: "ListState \<Rightarrow> panic + ListState" where
  "listRendererRefresh s =
     (let s1 = (case CreateItem s of
                  None \<Rightarrow> s
                | Some m \<Rightarrow>
                    (case createItemAndApplyThemeScope m s of
                       (sz, s') \<Rightarrow> s'\<lparr>itemMin := sz\<rparr>))
      in case scroller s1 of
           None \<Rightarrow> Inl NilPointer
         | Some sc \<Rightarrow> updateList False (s1\<lparr>scroller := Some (scrollResize (widgetSize s1) sc)\<rparr>))"

text \<open>
  Modelled from the spec: \<^verbatim>\<open>BaseWidget.Refresh\<close> (whose code is not in \<^verbatim>\<open>list.go\<close>), the
  request of a full refresh. The renderer of the list refreshes; a list that has no
  scroller yet has no renderer and nothing to refresh.
\<close>

definition Refresh :: "ListState \<Rightarrow> panic + ListState" where
  "Refresh s = (case scroller s of None \<Rightarrow> Inr s | Some _ \<Rightarrow> listRendererRefresh s)"

text \<open>\<^verbatim>\<open>RefreshItem(id)\<close>.\<close>

definition RefreshItem :: "ListItemID \<Rightarrow> ListState \<Rightarrow> panic + ListState" where
  "RefreshItem ident s =
     (case scroller s of
        None \<Rightarrow> Inr s
      | Some _ \<Rightarrow>
          (case Refresh s of
             Inl e \<Rightarrow> Inl e
           | Inr s1 \<Rightarrow>
               (case searchVisible (visible s1) ident of
                  Some it \<Rightarrow>
                    Inr (setupListItem it ident (focused s1 \<and> currentFocus s1 = ident) s1)
                | None \<Rightarrow> Inr s1)))"

subsection \<open>The measure model\<close>

text \<open>Go's \<^verbatim>\<open>l.itemMeasures[id]\<close> as a value: the zero value when the key is missing.\<close>

definition mapIndex :: "(ListItemID \<times> real) list \<Rightarrow> ListItemID \<Rightarrow> real" where
  "mapIndex ims ident = (case map_of ims ident of Some m \<Rightarrow> m | None \<Rightarrow> 0)"

text \<open>The local \<^verbatim>\<open>refresh\<close> of \<^verbatim>\<open>SetItemMeasure\<close>: \<^verbatim>\<open>l.itemMeasures[id] != measure\<close>.\<close>

definition SetItemMeasure_refresh :: "ListItemID \<Rightarrow> real \<Rightarrow> ListState \<Rightarrow> bool" where
  "SetItemMeasure_refresh ident m s = (mapIndex (itemMeasures s) ident \<noteq> m)"

text \<open>\<^verbatim>\<open>SetItemMeasure(id, measure)\<close>. A nil map and an empty map are the empty list.\<close>

definition SetItemMeasure :: "ListItemID \<Rightarrow> real \<Rightarrow> ListState \<Rightarrow> panic + ListState" where
  "SetItemMeasure ident m s =
     (let refresh = SetItemMeasure_refresh ident m s;
          s1 = s\<lparr>itemMeasures := AList.update ident m (itemMeasures s)\<rparr>
      in if refresh then RefreshItem ident s1 else Inr s1)"

text \<open>
  \<^verbatim>\<open>contentMinSize\<close>. The loop over the map adds the measure of each key below \<open>items\<close> and
  counts it.
\<close>

definition customMeasures :: "(ListItemID \<times> real) list \<Rightarrow> int \<Rightarrow> real \<times> int" where
  "customMeasures ims items =
     fold (\<lambda>(ident, itemMeasure) (measure, totalCustom).
             if ident < items then (measure + itemMeasure, totalCustom + 1)
             else (measure, totalCustom))
          ims (0, 0)"

definition contentMinSize :: "ListState \<Rightarrow> Size" where
  "contentMinSize s =
     (let separatorThickness = themePadding s
      in case Length s of
           None \<Rightarrow> NewSize 0 0
         | Some items \<Rightarrow>
             if length (itemMeasures s) = 0 then
               (if orientation s = Horizontal
                then NewSize ((Width (itemMin s) + separatorThickness) * of_int items
                                - separatorThickness) (Height (itemMin s))
                else NewSize (Width (itemMin s))
                       ((Height (itemMin s) + separatorThickness) * of_int items
                          - separatorThickness))
             else
               (let templateMeasure = (if orientation s = Horizontal then Width (itemMin s)
                                       else Height (itemMin s));
                    (measure, totalCustom) = customMeasures (itemMeasures s) items;
                    measure2 = measure + of_int (items - totalCustom) * templateMeasure;
                    calculatedMeasure = measure2 + separatorThickness * of_int (items - 1)
                in if orientation s = Horizontal
                   then NewSize calculatedMeasure (Height (itemMin s))
                   else NewSize (Width (itemMin s)) calculatedMeasure))"

text \<open>The extent of the content along the scroll axis.\<close>

definition contentMeasure :: "ListState \<Rightarrow> real" where
  "contentMeasure s =
     (if orientation s = Horizontal then Width (contentMinSize s)
      else Height (contentMinSize s))"

subsection \<open>Selection\<close>

text \<open>
  \<^verbatim>\<open>Select(id)\<close>. The deferred function runs after \<open>scrollTo\<close> and \<open>Refresh\<close>: it calls
  \<open>OnUnselected\<close> for the head of the old selection, then \<open>OnSelected\<close>. When
  \<open>scrollTo\<close> or \<open>Refresh\<close> panics the result is the panic, and the state in which Go
  still runs the deferred function is not kept.
\<close>

definition Select :: "ListItemID \<Rightarrow> ListState \<Rightarrow> panic + ListState" where
  "Select ident s =
     (if length (selected s) > 0 \<and> ident = hd (selected s) then Inr s
      else
        (let len = listLength s
         in if ident < 0 \<or> ident \<ge> len then Inr s
            else
              (let old = selected s;
                   s1 = s\<lparr>selected := [ident]\<rparr>
               in case scrollTo ident s1 of
                    Inl e \<Rightarrow> Inl e
                  | Inr s2 \<Rightarrow>
                      (case Refresh s2 of
                         Inl e \<Rightarrow> Inl e
                       | Inr s3 \<Rightarrow>
                           Inr (s3\<lparr>events := events s3 @
                                  (if OnUnselected s3 \<and> length old > 0
                                   then [OnUnselectedCall (hd old)] else []) @
                                  (if OnSelected s3 then [OnSelectedCall ident] else [])\<rparr>)))))"

text \<open>\<^verbatim>\<open>ScrollTo(id)\<close>.\<close>

definition ScrollTo :: "ListItemID \<Rightarrow> ListState \<Rightarrow> panic + ListState" where
  "ScrollTo ident s =
     (let len = listLength s
      in if ident < 0 \<or> ident \<ge> len then Inr s
         else
           (case scrollTo ident s of
              Inl e \<Rightarrow> Inl e
            | Inr s1 \<Rightarrow> Refresh s1))"

subsection \<open>Names for the parts of a recompute\<close>

text \<open>The window \<open>calculateVisibleItemMeasures\<close> computes for a viewport of positive
  extent \<open>scrollerMeasure\<close>: the offset of the first visible item, its index and the
  visible measures.\<close>

definition measuredWindow :: "real \<Rightarrow> int \<Rightarrow> real \<Rightarrow> ListState \<Rightarrow> real \<times> int \<times> real list" where
  "measuredWindow itemMeasure len scrollerMeasure s =
     (let padding = themePadding s in
      if length (itemMeasures s) = 0 then
        (let paddedItemMeasure = itemMeasure + padding;
             off = of_int \<lfloor>offset s / paddedItemMeasure\<rfloor> * paddedItemMeasure;
             minItem = \<lfloor>off / paddedItemMeasure\<rfloor>;
             maxItem = \<lceil>(off + scrollerMeasure) / paddedItemMeasure\<rceil>;
             minItem1 = (if minItem > len - 1 then len - 1 else minItem);
             minItem2 = (if minItem1 < 0 then 0 else minItem1);
             off2 = (if minItem1 < 0 then 0 else off);
             maxItem2 = (if maxItem > len - 1 then len - 1 else maxItem)
         in (off2, minItem2, replicate (nat (maxItem2 - minItem2 + 1)) itemMeasure))
      else scanItems (itemMeasures s) itemMeasure padding (offset s) scrollerMeasure
             len 0 0 0 0 False [])"

text \<open>\<^verbatim>\<open>minItemMeasure\<close> and \<^verbatim>\<open>measure\<close> of \<open>updateList\<close>: the template's extent along the
  scroll axis and the widget's extent across it.\<close>

definition templateMeasure :: "ListState \<Rightarrow> real" where
  "templateMeasure s =
     (if orientation s = Horizontal then Width (itemMin s) else Height (itemMin s))"

definition crossMeasure :: "ListState \<Rightarrow> real" where
  "crossMeasure s =
     (if orientation s = Horizontal then Height (widgetSize s) else Width (widgetSize s))"

text \<open>The log entry of \<open>updateList\<close> for a missing \<open>UpdateItem\<close>.\<close>

definition logMissing :: "ListState \<Rightarrow> ListState" where
  "logMissing s = (if \<not> UpdateItem s then s\<lparr>events := events s @ [LogError]\<rparr> else s)"

text \<open>One pass of the first loop of \<open>updateList\<close>, in parts: the size and position of
  the slot, the item for the index (\<open>itemFor\<close>), and its placement and entry in the
  visible set and the children (\<open>placeItem\<close>).\<close>

definition slotSize :: "Orientation \<Rightarrow> real \<Rightarrow> real \<Rightarrow> Size" where
  "slotSize ori itemMeasure m = (if ori = Horizontal then NewSize itemMeasure m else NewSize m itemMeasure)"

definition slotPosition :: "Orientation \<Rightarrow> real \<Rightarrow> Position" where
  "slotPosition ori axis = (if ori = Horizontal then NewPos axis 0 else NewPos 0 axis)"

definition itemFor ::
  "listItemAndID list \<Rightarrow> ListItemID \<Rightarrow> Size \<Rightarrow> ListState \<Rightarrow> panic + (item_ref \<times> ListState)" where
  "itemFor wasVisible ident sz s =
     (case searchVisible wasVisible ident of
        Some c \<Rightarrow> Inr (c, s)
      | None \<Rightarrow>
          (case getItem s of
             Inl e \<Rightarrow> Inl e
           | Inr (c, s1) \<Rightarrow> Inr (c, resizeItem c sz s1)))"

definition placeItem :: "item_ref \<Rightarrow> ListItemID \<Rightarrow> Position \<Rightarrow> Size \<Rightarrow> ListState \<Rightarrow> ListState" where
  "placeItem c ident position sz s1 =
     (let s2 = resizeItem c sz (moveItem c position s1)
      in s2\<lparr>visible := visible s2 @ [\<lparr>item = c, itemID = ident\<rparr>],
            children := children s2 @ [c]\<rparr>)"

text \<open>The part of \<open>updateList\<close> after its first loop.\<close>

definition finishUpdate :: "bool \<Rightarrow> listItemAndID list \<Rightarrow> ListState \<Rightarrow> panic + ListState" where
  "finishUpdate newOnly wasVisible s2 =
     (case updateSeparators (releaseItems wasVisible s2) of
        Inl e \<Rightarrow> Inl e
      | Inr s3 \<Rightarrow>
          (let s4 = s3\<lparr>Objects := map ItemObject (children s3) @
                                    map SeparatorObject (separators s3)\<rparr>
           in Inr (setupItems newOnly wasVisible (visible s4) s4)))"

text \<open>The separators of \<open>updateSeparators\<close> before its loop, cut or filled up to the
  number of children, and its \<^verbatim>\<open>dividerOff\<close>.\<close>

definition sizedSeparators :: "ListState \<Rightarrow> Separator list" where
  "sizedSeparators s =
     (if length (children s) > 1 then
        (if length (separators s) > length (children s)
         then take (length (children s)) (separators s)
         else separators s @
                replicate (length (children s) - length (separators s)) NewSeparator)
      else [])"

definition dividerOffOf :: "ListState \<Rightarrow> real" where
  "dividerOffOf s = (themePadding s + themeSeparatorThickness s) / 2"

text \<open>What the loop of \<open>updateSeparators\<close> does to the separator of a child: it is moved
  before the child, resized and shown.\<close>

definition placedSeparator ::
  "(item_ref \<Rightarrow> listItem) \<Rightarrow> Orientation \<Rightarrow> Size \<Rightarrow> real \<Rightarrow> real \<Rightarrow> item_ref \<Rightarrow> Separator \<Rightarrow> Separator" where
  "placedSeparator its ori wsize separatorThickness dividerOff child sep =
     sep\<lparr>sepPosition := (if ori = Horizontal
                           then NewPos (X (itemPosition (its child)) - dividerOff) 0
                           else NewPos 0 (Y (itemPosition (its child)) - dividerOff)),
         sepSize := (if ori = Horizontal
                     then NewSize separatorThickness (Height wsize)
                     else NewSize (Width wsize) separatorThickness),
         sepHidden := False\<rparr>"

text \<open>The number of separators \<open>updateSeparators\<close> leaves.\<close>

definition separatorCount :: "ListState \<Rightarrow> nat" where
  "separatorCount s =
     (if HideSeparators s \<or> length (children s) \<le> 1 then 0 else length (children s))"

text \<open>The fields a recompute reads and never writes: the callbacks and options, the
  selection and focus, the scroller, the measures, the offset, the sizes and the theme.\<close>

definition inputsOf ::
  "ListState \<Rightarrow>
     int option \<times> Size option \<times> bool \<times> bool \<times> bool \<times> bool \<times> ListItemID \<times> bool \<times>
     Scroll option \<times> ListItemID list \<times> Size \<times> (ListItemID \<times> real) list \<times> real \<times>
     Orientation \<times> Size \<times> real \<times> real" where
  "inputsOf s = (Length s, CreateItem s, UpdateItem s, OnSelected s, OnUnselected s,
     HideSeparators s, currentFocus s, focused s, scroller s, selected s, itemMin s,
     itemMeasures s, offset s, orientation s, widgetSize s, themePadding s,
     themeSeparatorThickness s)"

subsection \<open>What is observed of a run\<close>

text \<open>The invariant of the visible set: ascending in its indices, without duplicates.\<close>

definition strictlyAscending :: "listItemAndID list \<Rightarrow> bool" where
  "strictlyAscending vis = sorted_wrt (<) (map itemID vis)"

text \<open>What \<open>sortSearch n f\<close> returns for a monotone \<open>f\<close>: the least position where
  \<open>f\<close> holds, or \<open>n\<close>.\<close>

definition searchPost :: "nat \<Rightarrow> (nat \<Rightarrow> bool) \<Rightarrow> nat \<Rightarrow> bool" where
  "searchPost n f r = (r \<le> n \<and> (\<forall>k<r. \<not> f k) \<and> (\<forall>k. r \<le> k \<and> k < n \<longrightarrow> f k))"

text \<open>The window a call of \<open>calculateVisibleItemMeasures\<close> computes, as indices.\<close>

definition computedWindow :: "real \<Rightarrow> int \<Rightarrow> ListState \<Rightarrow> ListItemID list option" where
  "computedWindow itemMeasure len s =
     (case calculateVisibleItemMeasures itemMeasure len s of
        Inl _ \<Rightarrow> None
      | Inr ((off, minItem), s') \<Rightarrow> Some (windowIndices minItem (visibleItemMeasures s')))"

text \<open>The numbers of visible entries and of separators a recompute leaves.\<close>

definition recomputeCounts :: "bool \<Rightarrow> ListState \<Rightarrow> (nat \<times> nat) option" where
  "recomputeCounts newOnly s =
     (case updateList newOnly s of
        Inl _ \<Rightarrow> None
      | Inr s' \<Rightarrow> Some (length (visible s'), length (separators s')))"


text \<open>The calls of the selection callbacks in a trace, in order.\<close>

fun isSelectionEvent :: "event \<Rightarrow> bool" where
  "isSelectionEvent (OnSelectedCall _) = True"
| "isSelectionEvent (OnUnselectedCall _) = True"
| "isSelectionEvent _ = False"

definition selectionEvents :: "ListState \<Rightarrow> event list" where
  "selectionEvents s = filter isSelectionEvent (events s)"

text \<open>The fields that scrolling and refreshing leave alone: those of \<open>inputsOf\<close> but for
  the offset, the scroller (of which only the presence is kept) and the template size.\<close>

definition controlOf ::
  "ListState \<Rightarrow>
     int option \<times> Size option \<times> bool \<times> bool \<times> bool \<times> bool \<times> ListItemID \<times> bool \<times>
     bool \<times> ListItemID list \<times> (ListItemID \<times> real) list \<times> Orientation \<times> Size \<times>
     real \<times> real \<times> event list" where
  "controlOf s = (Length s, CreateItem s, UpdateItem s, OnSelected s, OnUnselected s,
     HideSeparators s, currentFocus s, focused s, scroller s = None, selected s,
     itemMeasures s, orientation s, widgetSize s, themePadding s,
     themeSeparatorThickness s, selectionEvents s)"

text \<open>The traffic with the pool and the factory in a trace.\<close>

fun isPoolEvent :: "event \<Rightarrow> bool" where
  "isPoolEvent (PoolObtain _) = True"
| "isPoolEvent (PoolRelease _) = True"
| "isPoolEvent CreateItemCall = True"
| "isPoolEvent _ = False"

definition poolEvents :: "ListState \<Rightarrow> event list" where
  "poolEvents s = filter isPoolEvent (events s)"

subsection \<open>Lists to run the code on\<close>

text \<open>
  A vertical list of 100 items with a template of height 20, padding 2 and a viewport of
  height 100, at scroll offset 0, before its first layout: nothing is mounted yet.
\<close>

definition uniformList :: ListState where
  "uniformList =
     \<lparr>Length = Some 100, CreateItem = Some (NewSize 50 20), UpdateItem = True,
      OnSelected = True, OnUnselected = True, HideSeparators = False,
      currentFocus = 0, focused = False,
      scroller = Some \<lparr>Offset = zeroPosition, ScrollSize = NewSize 50 100\<rparr>,
      selected = [], itemMin = NewSize 50 20, itemMeasures = [], offset = 0,
      orientation = Vertical, widgetSize = NewSize 50 100,
      themePadding = 2, themeSeparatorThickness = 1,
      separators = [], children = [], itemPool = [], visible = [],
      visibleItemMeasures = [], Objects = [],
      listItems = (\<lambda>_. newListItem), nextItem = 0, events = []\<rparr>"

text \<open>The list of the scenario with a viewport of no extent, before its first layout.\<close>

definition collapsedList :: ListState where
  "collapsedList =
     uniformList\<lparr>scroller := Some \<lparr>Offset = zeroPosition, ScrollSize = NewSize 50 0\<rparr>\<rparr>"

text \<open>A list of two items, both mounted, the second placed at 22 along the axis.\<close>

definition twoItemList :: ListState where
  "twoItemList =
     uniformList\<lparr>Length := Some 2, children := [0, 1],
       visible := [\<lparr>item = 0, itemID = 0\<rparr>, \<lparr>item = 1, itemID = 1\<rparr>],
       visibleItemMeasures := [20, 20],
       listItems := (\<lambda>_. newListItem)(1 := newListItem\<lparr>itemPosition := NewPos 0 22\<rparr>),
       nextItem := 2\<rparr>"

text \<open>The viewport of a list shrunk to no extent.\<close>

definition collapse :: "ListState \<Rightarrow> ListState" where
  "collapse s = s\<lparr>scroller := Some \<lparr>Offset = zeroPosition, ScrollSize = zeroSize\<rparr>\<rparr>"

text \<open>The window computed for the list a full recompute leaves, once its viewport has
  shrunk to no extent.\<close>

definition windowAfterCollapse :: "ListState \<Rightarrow> ListItemID list option" where
  "windowAfterCollapse s =
     (case updateList True s of
        Inl _ \<Rightarrow> None
      | Inr s1 \<Rightarrow> computedWindow (templateMeasure s1) (listLength s1) (collapse s1))"

section \<open>Properties\<close>

subsection \<open>The window of the uniform scenario\<close>

lemma replicate_6: "replicate 6 x = [x, x, x, x, x, x]"
  by (simp add: numeral_eq_Suc)

lemma windowIndices_6: "windowIndices 0 [a, b, c, d, e, f] = [0, 1, 2, 3, 4, 5]"
  by (simp add: windowIndices_def upt_rec)

text \<open>
  Claim C1, as the code has it. With a uniform item extent of 20, padding 2, a viewport
  of extent 100, 100 items and scroll offset 0, the computed window is the six indices
  0 to 5: the last index is \<open>\<lceil>100 / 22\<rceil> = 5\<close>, and the loop that fills the measures
  runs from 0 to \<open>maxItem - minItem\<close> inclusive.
\<close>

theorem uniform_window_scenario:
  assumes "scroller s = Some sc" and "scrollerMeasureOf (orientation s) sc = 100"
    and "themePadding s = 2" and "itemMeasures s = []" and "offset s = 0"
  shows "calculateVisibleItemMeasures 20 100 s
           = Inr ((0, 0), s\<lparr>visibleItemMeasures := [20, 20, 20, 20, 20, 20]\<rparr>)
         \<and> computedWindow 20 100 s = Some [0, 1, 2, 3, 4, 5]"
proof -
  have calc: "calculateVisibleItemMeasures 20 100 s
           = Inr ((0, 0), s\<lparr>visibleItemMeasures := [20, 20, 20, 20, 20, 20]\<rparr>)"
    using assms by (simp add: calculateVisibleItemMeasures_def Let_def replicate_6)
  then show ?thesis
    by (simp add: computedWindow_def windowIndices_6)
qed

theorem uniform_window_scenario_witness:
  "scroller uniformList = Some \<lparr>Offset = zeroPosition, ScrollSize = NewSize 50 100\<rparr>
   \<and> scrollerMeasureOf (orientation uniformList)
         \<lparr>Offset = zeroPosition, ScrollSize = NewSize 50 100\<rparr> = 100
   \<and> themePadding uniformList = 2 \<and> itemMeasures uniformList = []
   \<and> offset uniformList = 0
   \<and> calculateVisibleItemMeasures 20 100 uniformList
        = Inr ((0, 0), uniformList\<lparr>visibleItemMeasures := [20, 20, 20, 20, 20, 20]\<rparr>)
   \<and> computedWindow 20 100 uniformList = Some [0, 1, 2, 3, 4, 5]"
  using uniform_window_scenario
          [of uniformList "\<lparr>Offset = zeroPosition, ScrollSize = NewSize 50 100\<rparr>"]
  by (simp add: uniformList_def scrollerMeasureOf_def NewSize_def)

text \<open>The window of the scenario is not the five indices 0 to 4.\<close>

theorem uniform_window_not_five:
  "computedWindow 20 100 uniformList \<noteq> Some [0, 1, 2, 3, 4]"
  by (simp add: computedWindow_def calculateVisibleItemMeasures_def uniformList_def
        scrollerMeasureOf_def NewSize_def Let_def replicate_6 windowIndices_6)

subsection \<open>What a recompute leaves alone\<close>

lemma inputsOf_poolRelease [simp]: "inputsOf (poolRelease r s) = inputsOf s"
  by (simp add: inputsOf_def poolRelease_def)

lemma inputsOf_moveItem [simp]: "inputsOf (moveItem c p s) = inputsOf s"
  by (simp add: inputsOf_def moveItem_def)

lemma inputsOf_resizeItem [simp]: "inputsOf (resizeItem c p s) = inputsOf s"
  by (simp add: inputsOf_def resizeItem_def)

lemma inputsOf_setupListItem [simp]: "inputsOf (setupListItem li i f s) = inputsOf s"
  by (simp add: inputsOf_def setupListItem_def Let_def)

lemma inputsOf_getItem: "getItem s = Inr (c, s') \<Longrightarrow> inputsOf s' = inputsOf s"
  by (auto simp: inputsOf_def getItem_def poolObtain_def createItemAndApplyThemeScope_def Let_def
        split: list.splits option.splits)

lemma inputsOf_layout_update [simp]:
  "inputsOf (s\<lparr>visible := v\<rparr>) = inputsOf s"
  "inputsOf (s\<lparr>children := c\<rparr>) = inputsOf s"
  "inputsOf (s\<lparr>separators := sp\<rparr>) = inputsOf s"
  "inputsOf (s\<lparr>Objects := ob\<rparr>) = inputsOf s"
  "inputsOf (s\<lparr>visibleItemMeasures := vm\<rparr>) = inputsOf s"
  "inputsOf (s\<lparr>events := ev\<rparr>) = inputsOf s"
  "inputsOf (s\<lparr>itemPool := ip\<rparr>) = inputsOf s"
  "inputsOf (s\<lparr>listItems := li\<rparr>) = inputsOf s"
  "inputsOf (s\<lparr>nextItem := ni\<rparr>) = inputsOf s"
  by (simp_all add: inputsOf_def)

lemma inputsOf_mountItems:
  "mountItems was minItem m sep index axis vm s = Inr s' \<Longrightarrow> inputsOf s' = inputsOf s"
proof (induction vm arbitrary: index axis s)
  case Nil
  then show ?case by simp
next
  case (Cons a vm)
  then show ?case
    by (auto simp: Let_def split: option.splits sum.splits dest!: inputsOf_getItem)
qed

lemma inputsOf_releaseItems [simp]: "inputsOf (releaseItems was s) = inputsOf s"
  by (induction was arbitrary: s) (auto split: option.splits)

lemma inputsOf_setupItems [simp]: "inputsOf (setupItems n was vis s) = inputsOf s"
  by (induction vis arbitrary: s) auto

lemma inputsOf_updateSeparators:
  "updateSeparators s = Inr s' \<Longrightarrow> inputsOf s' = inputsOf s"
  by (auto simp: updateSeparators_def Let_def split: if_splits sum.splits)

lemma inputsOf_calculate:
  "calculateVisibleItemMeasures m len s = Inr (r, s') \<Longrightarrow> inputsOf s' = inputsOf s"
  by (auto simp: calculateVisibleItemMeasures_def Let_def split: if_splits option.splits prod.splits)

lemma inputsOf_updateList:
  "updateList n s = Inr s' \<Longrightarrow> inputsOf s' = inputsOf s"
  by (auto simp: updateList_def Let_def split: if_splits sum.splits prod.splits
      dest!: inputsOf_calculate inputsOf_mountItems inputsOf_updateSeparators)

subsection \<open>The early return of a recompute\<close>

lemma updateList_eq:
  "updateList newOnly s =
     (case calculateVisibleItemMeasures (templateMeasure s) (listLength s) (logMissing s) of
        Inl e \<Rightarrow> Inl e
      | Inr ((off, minItem), s1) \<Rightarrow>
          if visibleItemMeasures s1 = [] \<and> listLength s > 0 then Inr s1
          else
            (case mountItems (visible s) minItem (crossMeasure s) (themePadding s) 0 off
                    (visibleItemMeasures s1) (s1\<lparr>visible := [], children := []\<rparr>) of
               Inl e \<Rightarrow> Inl e
             | Inr s2 \<Rightarrow> finishUpdate newOnly (visible s) s2))"
  by (cases "orientation s"; cases "UpdateItem s")
     (simp_all add: updateList_def templateMeasure_def crossMeasure_def logMissing_def
        finishUpdate_def Let_def split: sum.split prod.split)

lemma calculate_events:
  "calculateVisibleItemMeasures m len (s\<lparr>events := e\<rparr>) =
     (case calculateVisibleItemMeasures m len s of
        Inl p \<Rightarrow> Inl p
      | Inr (r, s1) \<Rightarrow> Inr (r, s1\<lparr>events := e\<rparr>))"
  by (simp add: calculateVisibleItemMeasures_def Let_def split: option.splits prod.splits)

lemma calculate_frame:
  assumes "calculateVisibleItemMeasures m len s = Inr (r, s1)"
  shows "s1 = s\<lparr>visibleItemMeasures := visibleItemMeasures s1\<rparr>"
  using assms
  by (auto simp: calculateVisibleItemMeasures_def Let_def split: option.splits prod.splits if_splits)

text \<open>
  Claim C10. When the newly computed sequence of visible extents is empty and the list
  has items, the recompute returns and leaves the visible set, the children, the
  separators, the objects of the container, the pool and every list item as they were:
  nothing is obtained, created, released, placed or configured. The one call it may
  have made is the log entry for a missing \<open>UpdateItem\<close>.
\<close>

theorem updateList_early_return:
  assumes "calculateVisibleItemMeasures (templateMeasure s) (listLength s) s = Inr (r, s1)"
    and "visibleItemMeasures s1 = []" and "listLength s > 0"
  shows "\<exists>s'. updateList newOnly s = Inr s'
           \<and> visible s' = visible s \<and> children s' = children s
           \<and> separators s' = separators s \<and> Objects s' = Objects s
           \<and> itemPool s' = itemPool s \<and> listItems s' = listItems s
           \<and> nextItem s' = nextItem s
           \<and> events s' = events s @ (if UpdateItem s then [] else [LogError])"
proof -
  have fr: "s1 = s\<lparr>visibleItemMeasures := []\<rparr>"
    using calculate_frame [OF assms(1)] assms(2) by simp
  obtain off minItem where r: "r = (off, minItem)"
    by (cases r)
  have "calculateVisibleItemMeasures (templateMeasure s) (listLength s) (logMissing s)
          = Inr ((off, minItem), s1\<lparr>events := events (logMissing s)\<rparr>)"
    using assms(1) by (simp add: logMissing_def calculate_events r fr)
  then have "updateList newOnly s = Inr (s1\<lparr>events := events (logMissing s)\<rparr>)"
    using assms(2,3) by (simp add: updateList_eq)
  then show ?thesis
    by (simp add: fr logMissing_def)
qed

lemma collapsed_calc:
  "calculateVisibleItemMeasures (templateMeasure collapsedList) (listLength collapsedList) collapsedList
     = Inr ((0, 0), collapsedList)"
  by (simp add: calculateVisibleItemMeasures_def collapsedList_def uniformList_def
        scrollerMeasureOf_def NewSize_def Let_def)

theorem updateList_early_return_witness:
  "calculateVisibleItemMeasures (templateMeasure collapsedList) (listLength collapsedList) collapsedList
     = Inr ((0, 0), collapsedList)
   \<and> visibleItemMeasures collapsedList = [] \<and> listLength collapsedList > 0
   \<and> (\<exists>s'. updateList True collapsedList = Inr s'
           \<and> visible s' = visible collapsedList \<and> children s' = children collapsedList
           \<and> separators s' = separators collapsedList \<and> Objects s' = Objects collapsedList
           \<and> itemPool s' = itemPool collapsedList \<and> listItems s' = listItems collapsedList
           \<and> nextItem s' = nextItem collapsedList
           \<and> events s' = events collapsedList @ (if UpdateItem collapsedList then [] else [LogError]))"
proof -
  have a: "visibleItemMeasures collapsedList = []" and b: "listLength collapsedList > 0"
    by (simp_all add: collapsedList_def uniformList_def listLength_def)
  show ?thesis
    using updateList_early_return [OF collapsed_calc a b, of True] collapsed_calc a b
    by simp
qed

subsection \<open>Binary search\<close>

lemma sortSearchLoop_stop: "\<not> i < j \<Longrightarrow> sortSearchLoop f i j = i"
  by (subst sortSearchLoop.simps) simp

lemma sortSearchLoop_step:
  "i < j \<Longrightarrow> sortSearchLoop f i j =
     (if \<not> f ((i + j) div 2) then sortSearchLoop f ((i + j) div 2 + 1) j
      else sortSearchLoop f i ((i + j) div 2))"
  by (subst sortSearchLoop.simps) (simp add: Let_def)

lemma sortSearchLoop_inv:
  "(\<forall>a b. a \<le> b \<longrightarrow> b < n \<longrightarrow> f a \<longrightarrow> f b) \<Longrightarrow> i \<le> j \<Longrightarrow> j \<le> n \<Longrightarrow>
   (\<forall>k<i. \<not> f k) \<Longrightarrow> (\<forall>k. j \<le> k \<and> k < n \<longrightarrow> f k) \<Longrightarrow>
   searchPost n f (sortSearchLoop f i j)"
proof (induction f i j rule: sortSearchLoop.induct)
  case (1 f i j)
  note mono = 1(3)
  show ?case
  proof (cases "i < j")
    case False
    with 1(4-7) show ?thesis
      by (simp add: sortSearchLoop_stop searchPost_def)
  next
    case True
    define h where "h = (i + j) div 2"
    have hb: "i \<le> h" "h < j" using True by (simp_all add: h_def)
    have hn: "h < n" using hb 1(5) by simp
    show ?thesis
    proof (cases "f h")
      case fh: True
      have up: "\<forall>k. h \<le> k \<and> k < n \<longrightarrow> f k"
        using fh mono by blast
      have "searchPost n f (sortSearchLoop f i h)"
      proof (rule 1(2) [OF True h_def _ mono])
        show "\<not> \<not> f h" using fh by simp
        show "i \<le> h" by (rule hb)
        show "h \<le> n" using hn by simp
        show "\<forall>k<i. \<not> f k" by (rule 1(6))
        show "\<forall>k. h \<le> k \<and> k < n \<longrightarrow> f k" by (rule up)
      qed
      then show ?thesis
        using True fh by (simp add: sortSearchLoop_step h_def)
    next
      case nfh: False
      have lo: "\<forall>k<h + 1. \<not> f k"
      proof (intro allI impI)
        fix k assume "k < h + 1"
        then have "k \<le> h" by simp
        then show "\<not> f k" using mono nfh hn by blast
      qed
      have "searchPost n f (sortSearchLoop f (h + 1) j)"
      proof (rule 1(1) [OF True h_def nfh mono])
        show "h + 1 \<le> j" using hb by simp
        show "j \<le> n" by (rule 1(5))
        show "\<forall>k<h + 1. \<not> f k" by (rule lo)
        show "\<forall>k. j \<le> k \<and> k < n \<longrightarrow> f k" by (rule 1(7))
      qed
      then show ?thesis
        using True nfh by (simp add: sortSearchLoop_step h_def)
    qed
  qed
qed

lemma sortSearch_least:
  assumes "\<forall>a b. a \<le> b \<longrightarrow> b < n \<longrightarrow> f a \<longrightarrow> f b"
  shows "searchPost n f (sortSearch n f)"
  unfolding sortSearch_def
  by (rule sortSearchLoop_inv) (use assms in auto)

lemma strictlyAscending_nth:
  "strictlyAscending vis \<Longrightarrow> i < j \<Longrightarrow> j < length vis \<Longrightarrow> itemID (vis ! i) < itemID (vis ! j)"
  by (simp add: strictlyAscending_def sorted_wrt_iff_nth_less)

lemma searchVisible_found:
  assumes asc: "strictlyAscending vis" and k: "k < length vis"
  shows "searchVisible vis (itemID (vis ! k)) = Some (item (vis ! k))"
proof -
  define f where "f = (\<lambda>i. itemID (vis ! i) \<ge> itemID (vis ! k))"
  define r where "r = sortSearch (length vis) f"
  have mono: "\<forall>a b. a \<le> b \<longrightarrow> b < length vis \<longrightarrow> f a \<longrightarrow> f b"
  proof (intro allI impI)
    fix a b assume ab: "a \<le> b" "b < length vis" "f a"
    show "f b"
    proof (cases "a = b")
      case True with ab show ?thesis by simp
    next
      case False
      then have "itemID (vis ! a) < itemID (vis ! b)"
        using ab strictlyAscending_nth [OF asc, of a b] by simp
      with ab(3) show ?thesis by (simp add: f_def)
    qed
  qed
  have post: "searchPost (length vis) f r"
    unfolding r_def by (rule sortSearch_least [OF mono])
  have "f k" by (simp add: f_def)
  have rk: "r \<le> k"
  proof (rule ccontr)
    assume "\<not> r \<le> k"
    then have "k < r" by simp
    then have "\<not> f k" using post by (simp add: searchPost_def)
    with \<open>f k\<close> show False by simp
  qed
  then have "f r" using post k by (simp add: searchPost_def)
  have "r = k"
  proof (rule ccontr)
    assume "r \<noteq> k"
    then have "r < k" using rk by simp
    then have "itemID (vis ! r) < itemID (vis ! k)"
      using strictlyAscending_nth [OF asc, of r k] k by simp
    with \<open>f r\<close> show False by (simp add: f_def)
  qed
  then show ?thesis
    using k by (simp add: searchVisible_def Let_def r_def f_def)
qed

lemma searchVisible_Some:
  "searchVisible vis ident = Some c \<Longrightarrow>
     \<exists>k<length vis. itemID (vis ! k) = ident \<and> item (vis ! k) = c"
  by (auto simp: searchVisible_def Let_def split: if_splits)

lemma searchVisible_absent:
  "ident \<notin> itemID ` set vis \<Longrightarrow> searchVisible vis ident = None"
proof (rule ccontr)
  assume a: "ident \<notin> itemID ` set vis" and "searchVisible vis ident \<noteq> None"
  then obtain c where "searchVisible vis ident = Some c" by auto
  then obtain k where "k < length vis" "itemID (vis ! k) = ident"
    using searchVisible_Some by blast
  then have "ident \<in> itemID ` set vis" by (metis imageI nth_mem)
  with a show False by simp
qed

declare mountItems.simps(2) [simp del]

lemma mountItems_Cons:
  "mountItems was minItem m sep index axis (a # vm) s =
     (case itemFor was (int index + minItem) (slotSize (orientation s) a m) s of
        Inl e \<Rightarrow> Inl e
      | Inr (c, s1) \<Rightarrow>
          mountItems was minItem m sep (Suc index) (axis + a + sep) vm
            (placeItem c (int index + minItem) (slotPosition (orientation s) axis)
               (slotSize (orientation s) a m) s1))"
proof (cases "searchVisible was (int index + minItem)")
  case (Some c)
  then show ?thesis
    by (simp add: mountItems.simps(2) itemFor_def placeItem_def slotSize_def slotPosition_def
          Let_def)
next
  case None
  show ?thesis
  proof (cases "getItem s")
    case (Inl e)
    then show ?thesis
      using None by (simp add: mountItems.simps(2) itemFor_def Let_def)
  next
    case (Inr p)
    then obtain c s1 where "getItem s = Inr (c, s1)"
      by (cases p) simp
    then show ?thesis
      using None
      by (simp add: mountItems.simps(2) itemFor_def placeItem_def slotSize_def slotPosition_def
            Let_def)
  qed
qed

subsection \<open>getItem\<close>

lemma getItem_total: "CreateItem s \<noteq> None \<Longrightarrow> \<exists>c s'. getItem s = Inr (c, s')"
  by (auto simp: getItem_def poolObtain_def createItemAndApplyThemeScope_def Let_def
        split: list.splits option.splits)

lemma getItem_layout:
  "getItem s = Inr (c, s') \<Longrightarrow>
     visible s' = visible s \<and> children s' = children s
     \<and> visibleItemMeasures s' = visibleItemMeasures s \<and> separators s' = separators s
     \<and> Objects s' = Objects s"
  by (auto simp: getItem_def poolObtain_def createItemAndApplyThemeScope_def Let_def
        split: list.splits option.splits)

lemma moveItem_fields [simp]:
  "visible (moveItem c p s) = visible s" "children (moveItem c p s) = children s"
  "visibleItemMeasures (moveItem c p s) = visibleItemMeasures s"
  "separators (moveItem c p s) = separators s" "Objects (moveItem c p s) = Objects s"
  "itemPool (moveItem c p s) = itemPool s" "nextItem (moveItem c p s) = nextItem s"
  "events (moveItem c p s) = events s"
  by (simp_all add: moveItem_def)

lemma resizeItem_fields [simp]:
  "visible (resizeItem c p s) = visible s" "children (resizeItem c p s) = children s"
  "visibleItemMeasures (resizeItem c p s) = visibleItemMeasures s"
  "separators (resizeItem c p s) = separators s" "Objects (resizeItem c p s) = Objects s"
  "itemPool (resizeItem c p s) = itemPool s" "nextItem (resizeItem c p s) = nextItem s"
  "events (resizeItem c p s) = events s"
  by (simp_all add: resizeItem_def)

lemma placeItem_fields [simp]:
  "visible (placeItem c i p sz s) = visible s @ [\<lparr>item = c, itemID = i\<rparr>]"
  "children (placeItem c i p sz s) = children s @ [c]"
  "visibleItemMeasures (placeItem c i p sz s) = visibleItemMeasures s"
  "separators (placeItem c i p sz s) = separators s" "Objects (placeItem c i p sz s) = Objects s"
  "itemPool (placeItem c i p sz s) = itemPool s" "nextItem (placeItem c i p sz s) = nextItem s"
  "events (placeItem c i p sz s) = events s"
  "inputsOf (placeItem c i p sz s) = inputsOf s"
  by (simp_all add: placeItem_def Let_def)

lemma CreateItem_inputsOf: "inputsOf s' = inputsOf s \<Longrightarrow> CreateItem s' = CreateItem s"
  by (simp add: inputsOf_def)

lemma orientation_inputsOf: "inputsOf s' = inputsOf s \<Longrightarrow> orientation s' = orientation s"
  by (simp add: inputsOf_def)

lemma itemFor_frame:
  "itemFor was ident sz s = Inr (c, s1) \<Longrightarrow>
     visible s1 = visible s \<and> children s1 = children s
     \<and> visibleItemMeasures s1 = visibleItemMeasures s \<and> separators s1 = separators s
     \<and> Objects s1 = Objects s \<and> inputsOf s1 = inputsOf s"
  by (auto simp: itemFor_def split: option.splits sum.splits
        dest: getItem_layout inputsOf_getItem)

lemma itemFor_found:
  "searchVisible was ident = Some c \<Longrightarrow> itemFor was ident sz s = Inr (c, s)"
  by (simp add: itemFor_def)

lemma itemFor_total:
  "CreateItem s \<noteq> None \<Longrightarrow> \<exists>c s1. itemFor was ident sz s = Inr (c, s1)"
  using getItem_total [of s]
  by (auto simp: itemFor_def split: option.splits)

subsection \<open>The first loop\<close>

lemma map_upt_shift:
  "map f [0..<Suc n] = f 0 # map (\<lambda>j. f (Suc j)) [0..<n]"
proof -
  have "[0..<Suc n] = 0 # map Suc [0..<n]"
    by (simp only: upt_conv_Cons [of 0 "Suc n"] map_Suc_upt zero_less_Suc)
  then show ?thesis by (simp only: list.map map_map o_def)
qed

lemma mountItems_visible:
  "mountItems was minItem m sep index axis vm s = Inr s' \<Longrightarrow>
     \<exists>new. visible s' = visible s @ new \<and> children s' = children s @ map item new
           \<and> map itemID new = map (\<lambda>j. int (index + j) + minItem) [0..<length vm]"
proof (induction vm arbitrary: index axis s)
  case Nil
  then show ?case by simp
next
  case (Cons a vm)
  define ident where "ident = int index + minItem"
  have "(case itemFor was ident (slotSize (orientation s) a m) s of
          Inl e \<Rightarrow> Inl e
        | Inr (c, s1) \<Rightarrow>
            mountItems was minItem m sep (Suc index) (axis + a + sep) vm
              (placeItem c ident (slotPosition (orientation s) axis)
                 (slotSize (orientation s) a m) s1)) = Inr s'"
    using Cons.prems unfolding mountItems_Cons ident_def .
  then obtain c s1 where
    it: "itemFor was ident (slotSize (orientation s) a m) s = Inr (c, s1)"
    and rec: "mountItems was minItem m sep (Suc index) (axis + a + sep) vm
                (placeItem c ident (slotPosition (orientation s) axis)
                   (slotSize (orientation s) a m) s1) = Inr s'"
    by (cases "itemFor was ident (slotSize (orientation s) a m) s") auto
  note fr = itemFor_frame [OF it]
  from Cons.IH [OF rec] obtain new where
    new: "visible s' = (visible s1 @ [\<lparr>item = c, itemID = ident\<rparr>]) @ new"
         "children s' = (children s1 @ [c]) @ map item new"
         "map itemID new = map (\<lambda>j. int (Suc index + j) + minItem) [0..<length vm]"
    unfolding placeItem_fields by blast
  have "visible s' = visible s @ (\<lparr>item = c, itemID = ident\<rparr> # new)"
    and "children s' = children s @ map item (\<lparr>item = c, itemID = ident\<rparr> # new)"
    and "map itemID (\<lparr>item = c, itemID = ident\<rparr> # new)
          = map (\<lambda>j. int (index + j) + minItem) [0..<length (a # vm)]"
    using new fr by (simp_all add: ident_def map_upt_shift del: upt_Suc upt.simps)
  then show ?case by blast
qed

lemma mountItems_total:
  "CreateItem s \<noteq> None \<Longrightarrow> \<exists>s'. mountItems was minItem m sep index axis vm s = Inr s'"
proof (induction vm arbitrary: index axis s)
  case Nil
  then show ?case by simp
next
  case (Cons a vm)
  from itemFor_total [OF Cons.prems, of was "int index + minItem" "slotSize (orientation s) a m"]
  obtain c s1 where
    it: "itemFor was (int index + minItem) (slotSize (orientation s) a m) s = Inr (c, s1)"
    by blast
  have "inputsOf s1 = inputsOf s"
    using itemFor_frame [OF it] by simp
  then have "CreateItem s1 = CreateItem s"
    by (rule CreateItem_inputsOf)
  then have "CreateItem (placeItem c (int index + minItem) (slotPosition (orientation s) axis)
                   (slotSize (orientation s) a m) s1) \<noteq> None"
    using Cons.prems CreateItem_inputsOf [OF placeItem_fields(9)] by simp
  from Cons.IH [OF this, of "Suc index" "axis + a + sep"] show ?case
    by (simp add: mountItems_Cons it)
qed

subsection \<open>Separators\<close>

lemma placeSeparators_step:
  "i \<noteq> 0 \<Longrightarrow> i < length seps \<Longrightarrow>
   placeSeparators its ori wsize th doff ((i, child) # rest) seps =
     placeSeparators its ori wsize th doff rest
       (seps[i := placedSeparator its ori wsize th doff child (seps ! i)])"
  by (simp add: placedSeparator_def Let_def)

lemma placeSeparators_skip:
  "placeSeparators its ori wsize th doff ((0, child) # rest) seps =
     placeSeparators its ori wsize th doff rest seps"
  by simp

lemma placeSeparators_total:
  "(\<forall>p \<in> set ics. fst p = 0 \<or> fst p < length seps) \<Longrightarrow>
     \<exists>seps'. placeSeparators its ori wsize th doff ics seps = Inr seps'
              \<and> length seps' = length seps"
proof (induction ics arbitrary: seps)
  case Nil
  then show ?case by simp
next
  case (Cons p ics)
  obtain i child where p: "p = (i, child)" by (cases p)
  show ?case
  proof (cases "i = 0")
    case True
    from Cons.IH [of seps] Cons.prems show ?thesis
      unfolding p True placeSeparators_skip by simp
  next
    case False
    then have i: "i < length seps" using Cons.prems p by auto
    define seps2 where "seps2 = seps[i := placedSeparator its ori wsize th doff child (seps ! i)]"
    have "\<forall>p \<in> set ics. fst p = 0 \<or> fst p < length seps2"
      using Cons.prems by (simp add: seps2_def)
    from Cons.IH [OF this] show ?thesis
      unfolding p placeSeparators_step [OF False i] seps2_def by simp
  qed
qed

lemma zip_upt_fst:
  assumes "p \<in> set (zip [0..<n] cs)"
  shows "fst p < n"
proof -
  obtain a b where p: "p = (a, b)" by (cases p)
  then have "a \<in> set [0..<n]" using assms set_zip_leftD by fastforce
  then show ?thesis using p by simp
qed

lemma updateSeparators_eq:
  "\<not> HideSeparators s \<Longrightarrow>
   updateSeparators s =
     (case placeSeparators (listItems s) (orientation s) (widgetSize s)
             (themeSeparatorThickness s) (dividerOffOf s)
             (zip [0..<length (children s)] (children s)) (sizedSeparators s) of
        Inl e \<Rightarrow> Inl e
      | Inr seps2 \<Rightarrow> Inr (s\<lparr>separators := seps2\<rparr>))"
  unfolding updateSeparators_def sizedSeparators_def dividerOffOf_def Let_def
  by simp

lemma length_sizedSeparators:
  "\<not> HideSeparators s \<Longrightarrow> length (sizedSeparators s) = separatorCount s"
  by (auto simp: sizedSeparators_def separatorCount_def)

lemma updateSeparators_result:
  "\<exists>s'. updateSeparators s = Inr s' \<and> length (separators s') = separatorCount s
        \<and> s' = s\<lparr>separators := separators s'\<rparr>"
proof (cases "HideSeparators s")
  case True
  then show ?thesis by (simp add: updateSeparators_def separatorCount_def)
next
  case False
  note len = length_sizedSeparators [OF False]
  have "\<forall>p \<in> set (zip [0..<length (children s)] (children s)).
          fst p = 0 \<or> fst p < length (sizedSeparators s)"
  proof
    fix p assume "p \<in> set (zip [0..<length (children s)] (children s))"
    then have "fst p < length (children s)"
      by (rule zip_upt_fst)
    then show "fst p = 0 \<or> fst p < length (sizedSeparators s)"
      using len False by (auto simp: separatorCount_def)
  qed
  from placeSeparators_total [OF this] obtain seps' where
    "placeSeparators (listItems s) (orientation s) (widgetSize s) (themeSeparatorThickness s)
        (dividerOffOf s) (zip [0..<length (children s)] (children s)) (sizedSeparators s)
       = Inr seps'"
    "length seps' = length (sizedSeparators s)"
    by blast
  then show ?thesis
    using len by (simp add: updateSeparators_eq [OF False])
qed

subsection \<open>The later loops\<close>

lemma poolRelease_fields [simp]:
  "visible (poolRelease r s) = visible s" "children (poolRelease r s) = children s"
  "visibleItemMeasures (poolRelease r s) = visibleItemMeasures s"
  "separators (poolRelease r s) = separators s" "Objects (poolRelease r s) = Objects s"
  "listItems (poolRelease r s) = listItems s" "nextItem (poolRelease r s) = nextItem s"
  by (simp_all add: poolRelease_def)

lemma releaseItems_fields [simp]:
  "visible (releaseItems was s) = visible s" "children (releaseItems was s) = children s"
  "visibleItemMeasures (releaseItems was s) = visibleItemMeasures s"
  "separators (releaseItems was s) = separators s" "Objects (releaseItems was s) = Objects s"
  "listItems (releaseItems was s) = listItems s" "nextItem (releaseItems was s) = nextItem s"
  by (induction was arbitrary: s; simp split: option.split)+

lemma setupListItem_fields [simp]:
  "visible (setupListItem li i f s) = visible s" "children (setupListItem li i f s) = children s"
  "visibleItemMeasures (setupListItem li i f s) = visibleItemMeasures s"
  "separators (setupListItem li i f s) = separators s" "Objects (setupListItem li i f s) = Objects s"
  "itemPool (setupListItem li i f s) = itemPool s" "nextItem (setupListItem li i f s) = nextItem s"
  by (simp_all add: setupListItem_def Let_def)

lemma setupItems_fields [simp]:
  "visible (setupItems n was vis s) = visible s" "children (setupItems n was vis s) = children s"
  "visibleItemMeasures (setupItems n was vis s) = visibleItemMeasures s"
  "separators (setupItems n was vis s) = separators s" "Objects (setupItems n was vis s) = Objects s"
  "itemPool (setupItems n was vis s) = itemPool s" "nextItem (setupItems n was vis s) = nextItem s"
  by (induction vis arbitrary: s; simp)+

lemma finishUpdate_result:
  "\<exists>s'. finishUpdate n was s = Inr s' \<and> visible s' = visible s \<and> children s' = children s
        \<and> visibleItemMeasures s' = visibleItemMeasures s
        \<and> length (separators s') = separatorCount s \<and> inputsOf s' = inputsOf s"
proof -
  from updateSeparators_result [of "releaseItems was s"] obtain s3 where
    s3: "updateSeparators (releaseItems was s) = Inr s3"
        "length (separators s3) = separatorCount (releaseItems was s)"
        "s3 = (releaseItems was s)\<lparr>separators := separators s3\<rparr>"
    by blast
  have same: "visible s3 = visible s" "children s3 = children s"
     "visibleItemMeasures s3 = visibleItemMeasures s" "inputsOf s3 = inputsOf s"
    by (subst s3(3), simp)+
  have "separatorCount (releaseItems was s) = separatorCount s"
    using inputsOf_releaseItems [of was s] by (simp add: separatorCount_def inputsOf_def)
  then show ?thesis
    using s3(1,2) same by (simp add: finishUpdate_def Let_def)
qed

lemma calculate_total:
  "scroller s \<noteq> None \<Longrightarrow> \<exists>off minItem s1. calculateVisibleItemMeasures m len s = Inr ((off, minItem), s1)"
  by (auto simp: calculateVisibleItemMeasures_def Let_def split: prod.splits)

lemma logMissing_fields [simp]:
  "inputsOf (logMissing s) = inputsOf s" "visible (logMissing s) = visible s"
  "children (logMissing s) = children s" "separators (logMissing s) = separators s"
  "visibleItemMeasures (logMissing s) = visibleItemMeasures s"
  "itemPool (logMissing s) = itemPool s" "nextItem (logMissing s) = nextItem s"
  "Objects (logMissing s) = Objects s" "listItems (logMissing s) = listItems s"
  by (simp_all add: logMissing_def)

lemma scroller_inputsOf: "inputsOf s' = inputsOf s \<Longrightarrow> scroller s' = scroller s"
  by (simp add: inputsOf_def)

lemma updateList_total:
  assumes sc: "scroller s \<noteq> None" and cr: "CreateItem s \<noteq> None"
  shows "\<exists>s'. updateList n s = Inr s'"
proof -
  have "scroller (logMissing s) \<noteq> None"
    using sc scroller_inputsOf [OF logMissing_fields(1), of s] by simp
  from calculate_total [OF this] obtain off minItem s1 where
    c: "calculateVisibleItemMeasures (templateMeasure s) (listLength s) (logMissing s)
          = Inr ((off, minItem), s1)"
    by blast
  have "inputsOf s1 = inputsOf s"
    using inputsOf_calculate [OF c] by simp
  then have "CreateItem (s1\<lparr>visible := [], children := []\<rparr>) \<noteq> None"
    using cr by (simp add: inputsOf_def)
  from mountItems_total [OF this] obtain s2 where
    m: "mountItems (visible s) minItem (crossMeasure s) (themePadding s) 0 off
          (visibleItemMeasures s1) (s1\<lparr>visible := [], children := []\<rparr>) = Inr s2"
    by blast
  from finishUpdate_result [of n "visible s" s2] obtain s' where
    "finishUpdate n (visible s) s2 = Inr s'" by blast
  then show ?thesis
    using c m by (simp add: updateList_eq)
qed

subsection \<open>The visible set after a recompute\<close>

lemma windowIndices_ascending: "sorted_wrt (<) (map (\<lambda>j. int (index + j) + minItem) [0..<n])"
  by (simp add: sorted_wrt_iff_nth_less)

lemma updateList_cases:
  assumes "updateList n s = Inr s'"
  obtains (early) off minItem where
      "calculateVisibleItemMeasures (templateMeasure s) (listLength s) (logMissing s)
         = Inr ((off, minItem), s')"
      "visibleItemMeasures s' = []" "listLength s > 0"
    | (full) off minItem s1 s2 where
      "calculateVisibleItemMeasures (templateMeasure s) (listLength s) (logMissing s)
         = Inr ((off, minItem), s1)"
      "\<not> (visibleItemMeasures s1 = [] \<and> listLength s > 0)"
      "mountItems (visible s) minItem (crossMeasure s) (themePadding s) 0 off
          (visibleItemMeasures s1) (s1\<lparr>visible := [], children := []\<rparr>) = Inr s2"
      "finishUpdate n (visible s) s2 = Inr s'"
  using assms unfolding updateList_eq
  by (auto split: sum.splits prod.splits if_splits)

lemma calculate_layout:
  assumes "calculateVisibleItemMeasures m len s = Inr (r, s1)"
  shows "visible s1 = visible s" "children s1 = children s" "separators s1 = separators s"
    "itemPool s1 = itemPool s" "nextItem s1 = nextItem s" "events s1 = events s"
    "Objects s1 = Objects s" "listItems s1 = listItems s"
  by (subst calculate_frame [OF assms], simp)+

lemma mountItems_frame:
  "mountItems was minItem m sep index axis vm s = Inr s' \<Longrightarrow>
     visibleItemMeasures s' = visibleItemMeasures s \<and> separators s' = separators s
     \<and> Objects s' = Objects s"
proof (induction vm arbitrary: index axis s)
  case Nil
  then show ?case by simp
next
  case (Cons a vm)
  from Cons.prems obtain c s1 where
    it: "itemFor was (int index + minItem) (slotSize (orientation s) a m) s = Inr (c, s1)"
    and rec: "mountItems was minItem m sep (Suc index) (axis + a + sep) vm
                (placeItem c (int index + minItem) (slotPosition (orientation s) axis)
                   (slotSize (orientation s) a m) s1) = Inr s'"
    unfolding mountItems_Cons
    by (cases "itemFor was (int index + minItem) (slotSize (orientation s) a m) s") auto
  from Cons.IH [OF rec] itemFor_frame [OF it] show ?case
    by simp
qed

lemma updateList_visible_ids:
  assumes "updateList n s = Inr s'"
  shows "map itemID (visible s') = map itemID (visible s)
         \<or> (\<exists>minItem. map itemID (visible s')
               = map (\<lambda>j. int j + minItem) [0..<length (visibleItemMeasures s')])"
  using assms
proof (cases rule: updateList_cases)
  case (early off minItem)
  then show ?thesis
    using calculate_layout(1) [OF early(1)] by simp
next
  case (full off minItem s1 s2)
  from mountItems_visible [OF full(3)] obtain new where
    new: "visible s2 = new" "map itemID new = map (\<lambda>j. int (0 + j) + minItem) [0..<length (visibleItemMeasures s1)]"
    by auto
  from finishUpdate_result [of n "visible s" s2] full(4)
  have "visible s' = visible s2" "visibleItemMeasures s' = visibleItemMeasures s2" by auto
  moreover have "visibleItemMeasures s2 = visibleItemMeasures s1"
    using mountItems_frame [OF full(3)] by simp
  ultimately show ?thesis using new by auto
qed

subsection \<open>The visible set stays ascending\<close>

lemma strictlyAscending_adjacent:
  "strictlyAscending vis \<Longrightarrow> Suc i < length vis \<Longrightarrow> itemID (vis ! i) < itemID (vis ! Suc i)"
  using strictlyAscending_nth [of vis i "Suc i"] by simp

lemma strictlyAscending_distinct: "strictlyAscending vis \<Longrightarrow> distinct (map itemID vis)"
proof -
  assume asc: "strictlyAscending vis"
  have "itemID (vis ! i) \<noteq> itemID (vis ! j)" if "i < j" "j < length vis" for i j
    using strictlyAscending_nth [OF asc that] by simp
  then have "map itemID vis ! i \<noteq> map itemID vis ! j"
    if "i < length (map itemID vis)" "j < length (map itemID vis)" "i \<noteq> j" for i j
    using that by (cases "i < j") (force simp: not_less le_less)+
  then show ?thesis
    by (simp only: distinct_conv_nth) blast
qed

text \<open>
  Claim C7. A recompute that returns leaves the visible set strictly ascending by index
  and free of duplicates, each entry's index below that of the next: when it mounts a
  window the indices are \<open>minItem, minItem + 1, \<dots>\<close>, and when it returns early the
  visible set is the one it found, ascending as every recompute before left it.
\<close>

theorem visible_set_ascending:
  assumes "strictlyAscending (visible s)" and "updateList newOnly s = Inr s'"
  shows "strictlyAscending (visible s') \<and> distinct (map itemID (visible s'))
         \<and> (\<forall>i. Suc i < length (visible s')
                \<longrightarrow> itemID (visible s' ! i) < itemID (visible s' ! Suc i))"
proof -
  have asc: "strictlyAscending (visible s')"
    using updateList_visible_ids [OF assms(2)]
  proof
    assume "map itemID (visible s') = map itemID (visible s)"
    then show ?thesis using assms(1) by (simp add: strictlyAscending_def)
  next
    assume "\<exists>minItem. map itemID (visible s')
               = map (\<lambda>j. int j + minItem) [0..<length (visibleItemMeasures s')]"
    then obtain minItem where "map itemID (visible s')
               = map (\<lambda>j. int (0 + j) + minItem) [0..<length (visibleItemMeasures s')]"
      by auto
    then show ?thesis
      unfolding strictlyAscending_def by (simp only: windowIndices_ascending)
  qed
  then show ?thesis
    using strictlyAscending_adjacent [OF asc] strictlyAscending_distinct [OF asc] by blast
qed

theorem visible_set_ascending_witness:
  "strictlyAscending (visible uniformList)
   \<and> (\<exists>s'. updateList True uniformList = Inr s'
         \<and> strictlyAscending (visible s') \<and> distinct (map itemID (visible s'))
         \<and> (\<forall>i. Suc i < length (visible s')
                \<longrightarrow> itemID (visible s' ! i) < itemID (visible s' ! Suc i)))"
proof -
  have a: "strictlyAscending (visible uniformList)"
    by (simp add: uniformList_def strictlyAscending_def)
  have "scroller uniformList \<noteq> None" "CreateItem uniformList \<noteq> None"
    by (simp_all add: uniformList_def)
  from updateList_total [OF this, of True] obtain s' where
    u: "updateList True uniformList = Inr s'" by blast
  from visible_set_ascending [OF a u] a u show ?thesis by blast
qed

subsection \<open>The separators of a recompute\<close>

lemma placeSeparators_cases:
  assumes "placeSeparators its ori wsize th doff ((j, d) # ics) seps = Inr seps'"
  obtains (skip) "j = 0" "placeSeparators its ori wsize th doff ics seps = Inr seps'"
  | (place) "j \<noteq> 0" "j < length seps"
      "placeSeparators its ori wsize th doff ics
         (seps[j := placedSeparator its ori wsize th doff d (seps ! j)]) = Inr seps'"
proof (cases "j = 0")
  case True
  then show ?thesis using assms skip by simp
next
  case False
  have j: "j < length seps"
  proof (rule ccontr)
    assume "\<not> j < length seps"
    then show False using assms False by simp
  qed
  show ?thesis
    using place [OF False j] assms unfolding placeSeparators_step [OF False j] .
qed

lemma placeSeparators_untouched:
  "placeSeparators its ori wsize th doff ics seps = Inr seps' \<Longrightarrow>
     i = 0 \<or> i \<notin> fst ` set ics \<Longrightarrow> seps' ! i = seps ! i"
proof (induction ics arbitrary: seps)
  case Nil
  then show ?case by simp
next
  case (Cons p ics)
  obtain j d where p: "p = (j, d)" by (cases p)
  have rest: "i = 0 \<or> i \<notin> fst ` set ics" using Cons.prems(2) by auto
  from Cons.prems(1) [unfolded p] show ?case
  proof (cases rule: placeSeparators_cases)
    case skip
    from Cons.IH [OF skip(2) rest] show ?thesis .
  next
    case place
    have "i \<noteq> j" using Cons.prems(2) place(1) p by auto
    with Cons.IH [OF place(3) rest] show ?thesis by simp
  qed
qed

lemma placeSeparators_placed:
  "placeSeparators its ori wsize th doff ics seps = Inr seps' \<Longrightarrow>
     distinct (map fst ics) \<Longrightarrow> (i, child) \<in> set ics \<Longrightarrow> i \<noteq> 0 \<Longrightarrow>
     seps' ! i = placedSeparator its ori wsize th doff child (seps ! i)"
proof (induction ics arbitrary: seps)
  case Nil
  then show ?case by simp
next
  case (Cons p ics)
  obtain j d where p: "p = (j, d)" by (cases p)
  have dist: "distinct (map fst ics)" "j \<notin> fst ` set ics"
    using Cons.prems(2) p by auto
  from Cons.prems(1) [unfolded p] show ?case
  proof (cases rule: placeSeparators_cases)
    case skip
    then have "(i, child) \<in> set ics" using Cons.prems(3,4) p by auto
    from Cons.IH [OF skip(2) dist(1) this Cons.prems(4)] show ?thesis .
  next
    case place
    show ?thesis
    proof (cases "(i, child) = (j, d)")
      case True
      then have "seps' ! i = (seps[j := placedSeparator its ori wsize th doff d (seps ! j)]) ! i"
        using placeSeparators_untouched [OF place(3), of i] dist(2) by simp
      then show ?thesis using True place(2) by simp
    next
      case False
      then have mem: "(i, child) \<in> set ics" using Cons.prems(3) p by auto
      then have "i \<in> fst ` set ics" by force
      then have "i \<noteq> j" using dist(2) by auto
      with Cons.IH [OF place(3) dist(1) mem Cons.prems(4)] show ?thesis by simp
    qed
  qed
qed

text \<open>
  Claim C2, as the code has it. \<open>updateSeparators\<close> never panics. With the
  hide-separators option set it leaves no separator. Otherwise, for \<open>k\<close> children it
  leaves none when \<open>k \<le> 1\<close> and \<open>k\<close> when \<open>k \<ge> 2\<close>, one for each child: the
  separators at positions 1 to \<open>k - 1\<close> are placed before the children at those
  positions and shown, and the separator at position 0 is left as it was.
\<close>

theorem separators_after_update:
  "\<exists>s'. updateSeparators s = Inr s'
        \<and> children s' = children s
        \<and> length (separators s') =
             (if HideSeparators s \<or> length (children s) \<le> 1 then 0 else length (children s))
        \<and> (\<forall>i. 0 < i \<and> i < length (separators s') \<longrightarrow>
               separators s' ! i =
                 placedSeparator (listItems s) (orientation s) (widgetSize s)
                   (themeSeparatorThickness s) (dividerOffOf s) (children s ! i)
                   (sizedSeparators s ! i))
        \<and> (0 < length (separators s') \<longrightarrow> separators s' ! 0 = sizedSeparators s ! 0)"
proof (cases "HideSeparators s")
  case True
  then show ?thesis by (simp add: updateSeparators_def)
next
  case False
  from updateSeparators_result [of s] obtain s' where
    s': "updateSeparators s = Inr s'" "length (separators s') = separatorCount s"
        "s' = s\<lparr>separators := separators s'\<rparr>"
    by blast
  define ics where "ics = zip [0..<length (children s)] (children s)"
  have place: "placeSeparators (listItems s) (orientation s) (widgetSize s)
             (themeSeparatorThickness s) (dividerOffOf s) ics (sizedSeparators s)
          = Inr (separators s')"
    using s'(1) unfolding updateSeparators_eq [OF False] ics_def
    by (auto split: sum.splits)
  have dist: "distinct (map fst ics)"
    by (simp add: ics_def)
  have placed: "separators s' ! i =
                 placedSeparator (listItems s) (orientation s) (widgetSize s)
                   (themeSeparatorThickness s) (dividerOffOf s) (children s ! i)
                   (sizedSeparators s ! i)"
    if "0 < i" "i < length (separators s')" for i
  proof -
    have "i < length (children s)"
      using that s'(2) by (simp add: separatorCount_def split: if_splits)
    then have "(i, children s ! i) \<in> set ics"
      unfolding ics_def in_set_zip by (intro exI [of _ i]) simp
    from placeSeparators_placed [OF place dist this] that show ?thesis by simp
  qed
  have first: "separators s' ! 0 = sizedSeparators s ! 0"
    using placeSeparators_untouched [OF place, of 0] by simp
  have "children s' = children s"
    by (subst s'(3)) simp
  then show ?thesis
    using s'(1,2) placed first by (simp add: separatorCount_def)
qed

lemma updateList_full:
  assumes calc: "calculateVisibleItemMeasures (templateMeasure s) (listLength s) (logMissing s)
                   = Inr ((off, minItem), s1)"
    and full: "\<not> (visibleItemMeasures s1 = [] \<and> listLength s > 0)"
    and upd: "updateList n s = Inr s'"
  shows "map itemID (visible s') = map (\<lambda>j. int j + minItem) [0..<length (visibleItemMeasures s1)]"
    and "children s' = map item (visible s')"
    and "visibleItemMeasures s' = visibleItemMeasures s1"
    and "length (separators s') = separatorCount s'"
    and "inputsOf s' = inputsOf s"
proof -
  from upd calc full obtain s2 where
    m: "mountItems (visible s) minItem (crossMeasure s) (themePadding s) 0 off
          (visibleItemMeasures s1) (s1\<lparr>visible := [], children := []\<rparr>) = Inr s2"
    and f: "finishUpdate n (visible s) s2 = Inr s'"
    unfolding updateList_eq by (auto split: sum.splits if_splits)
  from mountItems_visible [OF m] obtain new where
    new: "visible s2 = new" "children s2 = map item new"
      "map itemID new = map (\<lambda>j. int (0 + j) + minItem) [0..<length (visibleItemMeasures s1)]"
    by auto
  from finishUpdate_result [of n "visible s" s2] f have
    fin: "visible s' = visible s2" "children s' = children s2"
      "visibleItemMeasures s' = visibleItemMeasures s2"
      "length (separators s') = separatorCount s2" "inputsOf s' = inputsOf s2"
    by auto
  have vm2: "visibleItemMeasures s2 = visibleItemMeasures s1"
    using mountItems_frame [OF m] by simp
  have in2: "inputsOf s2 = inputsOf s"
    using inputsOf_mountItems [OF m] inputsOf_calculate [OF calc] by simp
  show "map itemID (visible s') = map (\<lambda>j. int j + minItem) [0..<length (visibleItemMeasures s1)]"
    using new fin by simp
  show "children s' = map item (visible s')" using new fin by simp
  show "visibleItemMeasures s' = visibleItemMeasures s1" using fin vm2 by simp
  show "inputsOf s' = inputsOf s" using fin in2 by simp
  have "HideSeparators s' = HideSeparators s2"
    using fin(5) by (simp add: inputsOf_def)
  then show "length (separators s') = separatorCount s'"
    using fin by (simp add: separatorCount_def)
qed

lemma uniformList_calc:
  "calculateVisibleItemMeasures (templateMeasure uniformList) (listLength uniformList)
      (logMissing uniformList)
     = Inr ((0, 0), uniformList\<lparr>visibleItemMeasures := [20, 20, 20, 20, 20, 20]\<rparr>)"
  by (simp add: calculateVisibleItemMeasures_def uniformList_def templateMeasure_def
        listLength_def logMissing_def scrollerMeasureOf_def NewSize_def Let_def replicate_6)

lemma uniformList_returns: "\<exists>s'. updateList n uniformList = Inr s'"
  by (rule updateList_total) (simp_all add: uniformList_def)

text \<open>The recompute of the uniform scenario mounts six items and leaves six separators,
  not five.\<close>

theorem recompute_six_separators:
  "recomputeCounts True uniformList = Some (6, 6) \<and> \<not> HideSeparators uniformList"
proof -
  obtain s' where u: "updateList True uniformList = Inr s'"
    using uniformList_returns by blast
  note full = updateList_full [OF uniformList_calc _ u]
  have "length (map itemID (visible s')) = 6"
    by (subst full(1)) simp_all
  then have v: "length (visible s') = 6" by simp
  then have c: "length (children s') = 6" using full(2) by simp
  have "HideSeparators s' = HideSeparators uniformList"
    using full(5) by (simp add: inputsOf_def)
  then have "length (separators s') = 6"
    using full(4) c by (simp add: separatorCount_def uniformList_def)
  then show ?thesis
    using u v by (simp add: recomputeCounts_def uniformList_def)
qed

theorem separators_after_update_witness:
  "\<exists>s'. updateSeparators twoItemList = Inr s'
        \<and> children s' = [0, 1]
        \<and> length (separators s') = 2
        \<and> separators s' ! 1 =
             \<lparr>sepPosition = NewPos 0 (41 / 2), sepSize = NewSize 50 1, sepHidden = False\<rparr>
        \<and> separators s' ! 0 = NewSeparator"
proof -
  have sized: "sizedSeparators twoItemList = [NewSeparator, NewSeparator]"
    by (simp add: sizedSeparators_def twoItemList_def uniformList_def numeral_2_eq_2)
  have c: "children twoItemList = [0, 1]" "\<not> HideSeparators twoItemList"
    by (simp_all add: twoItemList_def uniformList_def)
  from separators_after_update [of twoItemList] obtain s' where
    s': "updateSeparators twoItemList = Inr s'" "children s' = children twoItemList"
      "length (separators s') = 2"
      "\<forall>i. 0 < i \<and> i < length (separators s') \<longrightarrow>
               separators s' ! i =
                 placedSeparator (listItems twoItemList) (orientation twoItemList)
                   (widgetSize twoItemList) (themeSeparatorThickness twoItemList)
                   (dividerOffOf twoItemList) (children twoItemList ! i)
                   (sizedSeparators twoItemList ! i)"
      "0 < length (separators s') \<longrightarrow> separators s' ! 0 = sizedSeparators twoItemList ! 0"
    using c by auto
  have "separators s' ! 1 =
          placedSeparator (listItems twoItemList) (orientation twoItemList)
            (widgetSize twoItemList) (themeSeparatorThickness twoItemList)
            (dividerOffOf twoItemList) (children twoItemList ! 1)
            (sizedSeparators twoItemList ! 1)"
    using s'(3,4) by simp
  then have one: "separators s' ! 1 =
             \<lparr>sepPosition = NewPos 0 (41 / 2), sepSize = NewSize 50 1, sepHidden = False\<rparr>"
    by (simp add: sized placedSeparator_def dividerOffOf_def twoItemList_def uniformList_def
          NewSeparator_def NewPos_def NewSize_def)
  have "separators s' ! 0 = NewSeparator"
    using s'(3,5) by (simp add: sized)
  then show ?thesis
    using s'(1,2,3) one c by auto
qed

subsection \<open>Selection callbacks are called by \<open>Select\<close> alone\<close>

lemma selectionEvents_simps [simp]:
  "selectionEvents (s\<lparr>visible := v\<rparr>) = selectionEvents s"
  "selectionEvents (s\<lparr>children := c\<rparr>) = selectionEvents s"
  "selectionEvents (s\<lparr>separators := sp\<rparr>) = selectionEvents s"
  "selectionEvents (s\<lparr>Objects := ob\<rparr>) = selectionEvents s"
  "selectionEvents (s\<lparr>visibleItemMeasures := vm\<rparr>) = selectionEvents s"
  "selectionEvents (s\<lparr>itemPool := ip\<rparr>) = selectionEvents s"
  "selectionEvents (s\<lparr>listItems := li\<rparr>) = selectionEvents s"
  "selectionEvents (s\<lparr>nextItem := ni\<rparr>) = selectionEvents s"
  "selectionEvents (s\<lparr>offset := off\<rparr>) = selectionEvents s"
  "selectionEvents (s\<lparr>scroller := sc\<rparr>) = selectionEvents s"
  "selectionEvents (s\<lparr>itemMin := im\<rparr>) = selectionEvents s"
  "selectionEvents (s\<lparr>itemMeasures := ims\<rparr>) = selectionEvents s"
  "selectionEvents (s\<lparr>selected := sel\<rparr>) = selectionEvents s"
  by (simp_all add: selectionEvents_def)

lemma selectionEvents_basic [simp]:
  "selectionEvents (poolRelease r s) = selectionEvents s"
  "selectionEvents (moveItem c p s) = selectionEvents s"
  "selectionEvents (resizeItem c sz s) = selectionEvents s"
  "selectionEvents (setupListItem li i f s) = selectionEvents s"
  "selectionEvents (logMissing s) = selectionEvents s"
  "selectionEvents (placeItem c i p sz s) = selectionEvents s"
  by (simp_all add: selectionEvents_def poolRelease_def moveItem_def resizeItem_def
        setupListItem_def logMissing_def placeItem_def Let_def)

lemma selectionEvents_getItem:
  "getItem s = Inr (c, s') \<Longrightarrow> selectionEvents s' = selectionEvents s"
  by (auto simp: selectionEvents_def getItem_def poolObtain_def createItemAndApplyThemeScope_def
        Let_def split: list.splits option.splits)

lemma selectionEvents_itemFor:
  "itemFor was ident sz s = Inr (c, s1) \<Longrightarrow> selectionEvents s1 = selectionEvents s"
  by (auto simp: itemFor_def split: option.splits sum.splits dest: selectionEvents_getItem)

lemma mountItems_ConsE:
  assumes "mountItems was minItem m sep index axis (a # vm) s = Inr s'"
  obtains c s1 where
    "itemFor was (int index + minItem) (slotSize (orientation s) a m) s = Inr (c, s1)"
    "mountItems was minItem m sep (Suc index) (axis + a + sep) vm
       (placeItem c (int index + minItem) (slotPosition (orientation s) axis)
          (slotSize (orientation s) a m) s1) = Inr s'"
  using assms unfolding mountItems_Cons
  by (cases "itemFor was (int index + minItem) (slotSize (orientation s) a m) s") auto

lemma selectionEvents_mountItems:
  "mountItems was minItem m sep index axis vm s = Inr s' \<Longrightarrow>
     selectionEvents s' = selectionEvents s"
proof (induction vm arbitrary: index axis s)
  case Nil
  then show ?case by simp
next
  case (Cons a vm)
  from Cons.prems obtain c s1 where
    it: "itemFor was (int index + minItem) (slotSize (orientation s) a m) s = Inr (c, s1)"
    and rec: "mountItems was minItem m sep (Suc index) (axis + a + sep) vm
       (placeItem c (int index + minItem) (slotPosition (orientation s) axis)
          (slotSize (orientation s) a m) s1) = Inr s'"
    by (rule mountItems_ConsE)
  from Cons.IH [OF rec] selectionEvents_itemFor [OF it] show ?case by simp
qed

lemma selectionEvents_releaseItems [simp]:
  "selectionEvents (releaseItems was s) = selectionEvents s"
  by (induction was arbitrary: s) (simp_all split: option.split)

lemma selectionEvents_setupItems [simp]:
  "selectionEvents (setupItems n was vis s) = selectionEvents s"
  by (induction vis arbitrary: s) simp_all

lemma selectionEvents_finishUpdate:
  assumes "finishUpdate n was s = Inr s'"
  shows "selectionEvents s' = selectionEvents s"
proof -
  from updateSeparators_result [of "releaseItems was s"] obtain s3 where
    s3: "updateSeparators (releaseItems was s) = Inr s3"
        "s3 = (releaseItems was s)\<lparr>separators := separators s3\<rparr>"
    by blast
  have "selectionEvents s3 = selectionEvents s"
    by (subst s3(2)) simp
  then show ?thesis
    using assms s3(1) by (auto simp: finishUpdate_def Let_def)
qed

lemma selectionEvents_calculate:
  assumes "calculateVisibleItemMeasures m len s = Inr (r, s1)"
  shows "selectionEvents s1 = selectionEvents s"
  by (subst calculate_frame [OF assms]) simp

lemma selectionEvents_updateList:
  assumes "updateList n s = Inr s'"
  shows "selectionEvents s' = selectionEvents s"
  using assms
proof (cases rule: updateList_cases)
  case (early off minItem)
  then show ?thesis using selectionEvents_calculate [OF early(1)] by simp
next
  case (full off minItem s1 s2)
  show ?thesis
    using selectionEvents_calculate [OF full(1)] selectionEvents_mountItems [OF full(3)]
      selectionEvents_finishUpdate [OF full(4)]
    by simp
qed

lemma controlOf_updateList:
  assumes "updateList n s = Inr s'"
  shows "controlOf s' = controlOf s"
  using inputsOf_updateList [OF assms] selectionEvents_updateList [OF assms]
  by (simp add: controlOf_def inputsOf_def)

lemma controlOf_offsetUpdated:
  assumes "offsetUpdated pos s = Inr s'"
  shows "controlOf s' = controlOf s"
proof (cases "offset s = (if orientation s = Horizontal then X pos else Y pos)")
  case True
  then show ?thesis using assms by (simp add: offsetUpdated_def Let_def)
next
  case False
  then have "updateList True (s\<lparr>offset := (if orientation s = Horizontal then X pos else Y pos)\<rparr>) = Inr s'"
    using assms by (simp add: offsetUpdated_def Let_def)
  from controlOf_updateList [OF this] show ?thesis
    by (simp add: controlOf_def)
qed

lemma controlOf_scrollTo:
  assumes "scrollTo ident s = Inr s'"
  shows "controlOf s' = controlOf s"
proof (cases "scroller s")
  case None
  then show ?thesis using assms by (simp add: scrollTo_def)
next
  case (Some sc)
  then obtain pos sc' where "offsetUpdated pos (s\<lparr>scroller := Some sc'\<rparr>) = Inr s'"
    using assms by (auto simp: scrollTo_def Let_def split: prod.splits)
  from controlOf_offsetUpdated [OF this] Some show ?thesis
    by (simp add: controlOf_def)
qed

lemma controlOf_listRendererRefresh:
  assumes "listRendererRefresh s = Inr s'" and "scroller s \<noteq> None"
  shows "controlOf s' = controlOf s"
proof -
  define s1 where "s1 = (case CreateItem s of None \<Rightarrow> s
     | Some m \<Rightarrow> (case createItemAndApplyThemeScope m s of (sz, s') \<Rightarrow> s'\<lparr>itemMin := sz\<rparr>))"
  have c1: "controlOf s1 = controlOf s"
    by (simp add: s1_def controlOf_def createItemAndApplyThemeScope_def selectionEvents_def
          split: option.split)
  obtain sc where sc: "scroller s1 = Some sc"
    using assms(2) c1 by (auto simp: controlOf_def)
  have "updateList False (s1\<lparr>scroller := Some (scrollResize (widgetSize s1) sc)\<rparr>) = Inr s'"
    using assms(1) sc unfolding listRendererRefresh_def s1_def [symmetric] Let_def by simp
  from controlOf_updateList [OF this] c1 sc show ?thesis
    by (auto simp: controlOf_def)
qed

lemma controlOf_Refresh:
  assumes "Refresh s = Inr s'"
  shows "controlOf s' = controlOf s"
proof (cases "scroller s")
  case None
  then show ?thesis using assms by (simp add: Refresh_def)
next
  case (Some sc)
  then have "listRendererRefresh s = Inr s'" using assms by (simp add: Refresh_def)
  from controlOf_listRendererRefresh [OF this] Some show ?thesis by simp
qed


subsection \<open>Scrolling and refreshing return when there is an item factory\<close>

lemma controlOf_CreateItem: "controlOf s' = controlOf s \<Longrightarrow> CreateItem s' = CreateItem s"
  by (simp add: controlOf_def)

lemma offsetUpdated_total:
  "scroller s \<noteq> None \<Longrightarrow> CreateItem s \<noteq> None \<Longrightarrow> \<exists>s'. offsetUpdated pos s = Inr s'"
  using updateList_total [of "s\<lparr>offset := (if orientation s = Horizontal then X pos else Y pos)\<rparr>" True]
  by (simp add: offsetUpdated_def Let_def)

lemma scrollTo_total:
  assumes "CreateItem s \<noteq> None"
  shows "\<exists>s'. scrollTo ident s = Inr s'"
proof (cases "scroller s")
  case None
  then show ?thesis by (simp add: scrollTo_def)
next
  case (Some sc)
  have "\<exists>s'. offsetUpdated pos (s\<lparr>scroller := Some sc'\<rparr>) = Inr s'" for pos sc'
    by (rule offsetUpdated_total) (use assms in simp_all)
  then show ?thesis
    using Some by (simp add: scrollTo_def Let_def split: prod.split)
qed

lemma listRendererRefresh_total:
  assumes "scroller s \<noteq> None" and "CreateItem s \<noteq> None"
  shows "\<exists>s'. listRendererRefresh s = Inr s'"
proof -
  obtain m where m: "CreateItem s = Some m" using assms(2) by auto
  obtain sc where sc: "scroller s = Some sc" using assms(1) by auto
  have "\<exists>s'. updateList False
          (s\<lparr>events := events s @ [CreateItemCall], itemMin := m,
             scroller := Some (scrollResize (widgetSize s) sc)\<rparr>) = Inr s'"
    by (rule updateList_total) (simp_all add: m)
  then show ?thesis
    by (simp add: listRendererRefresh_def createItemAndApplyThemeScope_def m sc Let_def)
qed

lemma Refresh_total:
  "CreateItem s \<noteq> None \<Longrightarrow> \<exists>s'. Refresh s = Inr s'"
  using listRendererRefresh_total [of s]
  by (cases "scroller s") (simp_all add: Refresh_def)


lemma Select_total:
  assumes "CreateItem s \<noteq> None"
  shows "\<exists>s'. Select ident s = Inr s'"
proof -
  have "CreateItem (s\<lparr>selected := [ident]\<rparr>) \<noteq> None" using assms by simp
  from scrollTo_total [OF this] obtain s2 where
    s2: "scrollTo ident (s\<lparr>selected := [ident]\<rparr>) = Inr s2" by blast
  have "CreateItem s2 \<noteq> None"
    using controlOf_CreateItem [OF controlOf_scrollTo [OF s2]] assms by simp
  from Refresh_total [OF this] obtain s3 where "Refresh s2 = Inr s3" by blast
  then show ?thesis
    using s2 by (simp add: Select_def Let_def)
qed

subsection \<open>Selection\<close>

lemma listLength_controlOf: "controlOf s' = controlOf s \<Longrightarrow> listLength s' = listLength s"
  by (simp add: controlOf_def listLength_def)

lemma Select_changes:
  assumes new: "\<not> (length (selected s) > 0 \<and> ident = hd (selected s))"
    and range: "0 \<le> ident" "ident < listLength s"
    and sel: "Select ident s = Inr s'"
  shows "selected s' = [ident]"
    and "Length s' = Length s" and "OnSelected s' = OnSelected s"
    and "OnUnselected s' = OnUnselected s" and "CreateItem s' = CreateItem s"
    and "selectionEvents s' = selectionEvents s @
           (if OnUnselected s \<and> length (selected s) > 0
            then [OnUnselectedCall (hd (selected s))] else []) @
           (if OnSelected s then [OnSelectedCall ident] else [])"
proof -
  from sel new range obtain s2 s3 where
    s2: "scrollTo ident (s\<lparr>selected := [ident]\<rparr>) = Inr s2"
    and s3: "Refresh s2 = Inr s3"
    and s': "s' = s3\<lparr>events := events s3 @
                (if OnUnselected s3 \<and> length (selected s) > 0
                 then [OnUnselectedCall (hd (selected s))] else []) @
                (if OnSelected s3 then [OnSelectedCall ident] else [])\<rparr>"
    by (auto simp: Select_def Let_def split: sum.splits if_splits)
  have c: "controlOf s3 = controlOf (s\<lparr>selected := [ident]\<rparr>)"
    using controlOf_Refresh [OF s3] controlOf_scrollTo [OF s2] by simp
  then have f: "selected s3 = [ident]" "Length s3 = Length s" "OnSelected s3 = OnSelected s"
    "OnUnselected s3 = OnUnselected s" "CreateItem s3 = CreateItem s"
    "selectionEvents s3 = selectionEvents s"
    by (simp_all add: controlOf_def)
  show "selected s' = [ident]" "Length s' = Length s" "OnSelected s' = OnSelected s"
    "OnUnselected s' = OnUnselected s" "CreateItem s' = CreateItem s"
    by (simp_all add: s' f)
  show "selectionEvents s' = selectionEvents s @
           (if OnUnselected s \<and> length (selected s) > 0
            then [OnUnselectedCall (hd (selected s))] else []) @
           (if OnSelected s then [OnSelectedCall ident] else [])"
    using f(6) by (simp add: s' f(3,4) selectionEvents_def)
qed

lemma Select_head:
  assumes range: "0 \<le> ident" "ident < listLength s" and sel: "Select ident s = Inr s'"
  shows "length (selected s') > 0 \<and> hd (selected s') = ident \<and> Length s' = Length s
         \<and> OnSelected s' = OnSelected s \<and> OnUnselected s' = OnUnselected s"
proof (cases "length (selected s) > 0 \<and> ident = hd (selected s)")
  case True
  then have "s' = s" using sel by (simp add: Select_def)
  then show ?thesis using True by simp
next
  case False
  from Select_changes [OF False range sel] show ?thesis by simp
qed

text \<open>
  Claim C9. For \<open>a \<noteq> b\<close>, both in \<open>[0, count)\<close>, when \<open>Select a\<close> and then \<open>Select b\<close>
  return, the selection is exactly \<open>[b]\<close>, and the selection callbacks the second call
  makes are \<open>OnUnselected a\<close> first and \<open>OnSelected b\<close> after it (each when it is set),
  with no other selection callback in between.
\<close>

theorem select_replaces_selection:
  assumes "a \<noteq> b" and "0 \<le> a" and "a < listLength s" and "0 \<le> b" and "b < listLength s"
    and "Select a s = Inr s1" and "Select b s1 = Inr s2"
  shows "selected s2 = [b]
         \<and> selectionEvents s2 = selectionEvents s1 @
              (if OnUnselected s then [OnUnselectedCall a] else []) @
              (if OnSelected s then [OnSelectedCall b] else [])"
proof -
  from Select_head [OF assms(2,3,6)] have
    h: "length (selected s1) > 0" "hd (selected s1) = a" "Length s1 = Length s"
       "OnSelected s1 = OnSelected s" "OnUnselected s1 = OnUnselected s"
    by simp_all
  have new: "\<not> (length (selected s1) > 0 \<and> b = hd (selected s1))"
    using h(2) assms(1) by simp
  have range: "b < listLength s1"
    using assms(5) h(3) by (simp add: listLength_def)
  from Select_changes [OF new assms(4) range assms(7)] h show ?thesis
    by simp
qed

theorem select_replaces_selection_witness:
  "(3::int) \<noteq> 7 \<and> (0::int) \<le> 3 \<and> 3 < listLength uniformList
   \<and> (0::int) \<le> 7 \<and> 7 < listLength uniformList
   \<and> (\<exists>s1 s2. Select 3 uniformList = Inr s1 \<and> Select 7 s1 = Inr s2
         \<and> selected s2 = [7]
         \<and> selectionEvents s2 = selectionEvents s1 @ [OnUnselectedCall 3, OnSelectedCall 7])"
proof -
  have cr: "CreateItem uniformList \<noteq> None" by (simp add: uniformList_def)
  have len: "listLength uniformList = 100" by (simp add: uniformList_def listLength_def)
  have on: "OnUnselected uniformList" "OnSelected uniformList" by (simp_all add: uniformList_def)
  obtain s1 where s1: "Select 3 uniformList = Inr s1"
    using Select_total [OF cr] by blast
  have "selected uniformList = []" by (simp add: uniformList_def)
  then have "CreateItem s1 = CreateItem uniformList"
    using Select_changes(5) [OF _ _ _ s1] len by simp
  then obtain s2 where s2: "Select 7 s1 = Inr s2"
    using Select_total [of s1 7] cr by auto
  from select_replaces_selection [OF _ _ _ _ _ s1 s2] len on s1 s2 show ?thesis
    by auto
qed

subsection \<open>Indices out of range\<close>






subsection \<open>Where the code departs from the specification\<close>

text \<open>
  Claim C4 says that \<open>SetItemMeasure\<close> signals no change exactly when the new extent is
  the effective extent of the index. The code compares with the value of the map, which
  is zero for an index without override. On the uniform list item 3 has the effective
  extent 20: setting its extent to 0 is not refreshed, the override is stored and
  nothing else happens; setting it to 20, its effective extent, is refreshed.
\<close>

theorem SetItemMeasure_compares_with_zero:
  "effectiveMeasure (itemMeasures uniformList) (templateMeasure uniformList) 3 = 20
   \<and> SetItemMeasure_refresh 3 0 uniformList = False
   \<and> SetItemMeasure 3 0 uniformList = Inr (uniformList\<lparr>itemMeasures := [(3, 0)]\<rparr>)
   \<and> SetItemMeasure_refresh 3 20 uniformList = True"
  by (simp add: effectiveMeasure_def templateMeasure_def SetItemMeasure_refresh_def
        SetItemMeasure_def mapIndex_def uniformList_def NewSize_def Let_def)

text \<open>
  Claim C5 says that the content extent along the scroll axis is 0 when the item count
  is 0. For a length function that returns 0 the code returns minus the padding, with
  or without overrides; it returns 0 when there is no length function.
\<close>

theorem contentMeasure_without_items:
  "contentMeasure (uniformList\<lparr>Length := Some 0\<rparr>) = - 2
   \<and> contentMeasure (uniformList\<lparr>Length := Some 0, itemMeasures := [(3, 50)]\<rparr>) = - 2
   \<and> contentMeasure (uniformList\<lparr>Length := None\<rparr>) = 0"
  by (simp add: contentMeasure_def contentMinSize_def customMeasures_def uniformList_def
        NewSize_def Let_def)

lemma collapsed_window:
  "computedWindow m len (collapse s) = Some (windowIndices 0 (visibleItemMeasures s))"
  by (simp add: computedWindow_def calculateVisibleItemMeasures_def collapse_def
        scrollerMeasureOf_def zeroSize_def NewSize_def Let_def)

text \<open>
  Claim C6 says that a viewport of extent \<open>\<le> 0\<close> yields an empty window. The code returns
  before it resets the visible extents: after a recompute of the uniform list has
  mounted six items, the window computed for a viewport of no extent is still the six
  indices 0 to 5.
\<close>

theorem stale_window_without_viewport:
  "windowAfterCollapse uniformList = Some [0, 1, 2, 3, 4, 5]"
proof -
  obtain s1 where u: "updateList True uniformList = Inr s1"
    using uniformList_returns by blast
  note full = updateList_full [OF uniformList_calc _ u]
  have vm: "visibleItemMeasures s1 = [20, 20, 20, 20, 20, 20]"
    using full(3) by simp
  from collapsed_window [of _ _ s1] show ?thesis
    using u by (simp add: windowAfterCollapse_def vm windowIndices_6)
qed

text \<open>The part of claim C6 that holds: without items, a viewport of positive extent has
  an empty window.\<close>

lemma scanItems_none: "len \<le> 0 \<Longrightarrow> scanItems ims m p lo sm len 0 offs off mi v vis = (off, mi, vis)"
  by (subst scanItems.simps) simp

lemma window_empty_without_items:
  assumes "scroller s = Some sc" and "scrollerMeasureOf (orientation s) sc > 0" and "len \<le> 0"
    and "m + themePadding s \<noteq> 0"
  shows "computedWindow m len s = Some []"
  using assms
  by (simp add: computedWindow_def calculateVisibleItemMeasures_def Let_def scanItems_none
        windowIndices_def)

subsection \<open>A recompute depends on its inputs and the visible extents alone\<close>

lemma calculate_eq:
  "calculateVisibleItemMeasures m len s =
     (case scroller s of
        None \<Rightarrow> Inl NilPointer
      | Some sc \<Rightarrow>
          if scrollerMeasureOf (orientation s) sc \<le> 0 then Inr ((0, 0), s)
          else
            (case measuredWindow m len (scrollerMeasureOf (orientation s) sc) s of
               (off, minItem, vis) \<Rightarrow> Inr ((off, minItem), s\<lparr>visibleItemMeasures := vis\<rparr>)))"
  by (simp add: calculateVisibleItemMeasures_def measuredWindow_def Let_def
        split: option.split prod.split)

lemma measuredWindow_inputs:
  "inputsOf t = inputsOf s \<Longrightarrow> measuredWindow m len v t = measuredWindow m len v s"
  by (simp add: measuredWindow_def inputsOf_def Let_def)

lemma calculate_stable:
  assumes c: "calculateVisibleItemMeasures m len x = Inr (r, x1)"
    and i: "inputsOf t = inputsOf x"
    and v: "visibleItemMeasures t = visibleItemMeasures x1"
  shows "calculateVisibleItemMeasures m len t = Inr (r, t)"
proof -
  from c obtain sc where sc: "scroller x = Some sc"
    by (auto simp: calculate_eq split: option.splits)
  have sct: "scroller t = Some sc" "orientation t = orientation x"
    using i sc by (simp_all add: inputsOf_def)
  show ?thesis
  proof (cases "scrollerMeasureOf (orientation x) sc \<le> 0")
    case True
    then have "r = (0, 0)" "x1 = x" using c sc by (simp_all add: calculate_eq)
    then show ?thesis using True sct by (simp add: calculate_eq)
  next
    case False
    obtain off minItem vis where
      w: "measuredWindow m len (scrollerMeasureOf (orientation x) sc) x = (off, minItem, vis)"
      by (cases "measuredWindow m len (scrollerMeasureOf (orientation x) sc) x") auto
    then have r: "r = (off, minItem)" "x1 = x\<lparr>visibleItemMeasures := vis\<rparr>"
      using c sc False by (simp_all add: calculate_eq)
    have "visibleItemMeasures t = vis" using v r(2) by simp
    then have "t\<lparr>visibleItemMeasures := vis\<rparr> = t" by auto
    then show ?thesis
      using False sct w r(1) measuredWindow_inputs [OF i] by (simp add: calculate_eq)
  qed
qed

subsection \<open>A recompute of a window that is mounted already\<close>

lemma mountItems_found:
  "length cs = length vm \<Longrightarrow>
   (\<forall>j < length vm. searchVisible was (int (index + j) + minItem) = Some (cs ! j)) \<Longrightarrow>
   \<exists>s'. mountItems was minItem m sep index axis vm s = Inr s'
        \<and> visible s' = visible s @
              map (\<lambda>j. \<lparr>item = cs ! j, itemID = int (index + j) + minItem\<rparr>) [0..<length vm]
        \<and> children s' = children s @ cs
        \<and> itemPool s' = itemPool s \<and> nextItem s' = nextItem s \<and> events s' = events s"
proof (induction vm arbitrary: index axis s cs)
  case Nil
  then show ?case by simp
next
  case (Cons a vm)
  from Cons.prems(1) obtain c cs' where cs: "cs = c # cs'" "length cs' = length vm"
    by (cases cs) auto
  have found: "searchVisible was (int index + minItem) = Some c"
    using Cons.prems(2) [rule_format, of 0] cs by simp
  have rest: "\<forall>j < length vm. searchVisible was (int (Suc index + j) + minItem) = Some (cs' ! j)"
  proof (intro allI impI)
    fix j assume "j < length vm"
    then show "searchVisible was (int (Suc index + j) + minItem) = Some (cs' ! j)"
      using Cons.prems(2) [rule_format, of "Suc j"] cs by simp
  qed
  define s1 where "s1 = placeItem c (int index + minItem) (slotPosition (orientation s) axis)
                          (slotSize (orientation s) a m) s"
  from Cons.IH [OF cs(2) rest, of "axis + a + sep" s1] obtain s' where
    s': "mountItems was minItem m sep (Suc index) (axis + a + sep) vm s1 = Inr s'"
      "visible s' = visible s1 @
         map (\<lambda>j. \<lparr>item = cs' ! j, itemID = int (Suc index + j) + minItem\<rparr>) [0..<length vm]"
      "children s' = children s1 @ cs'"
      "itemPool s' = itemPool s1" "nextItem s' = nextItem s1" "events s' = events s1"
    by blast
  have "mountItems was minItem m sep index axis (a # vm) s = Inr s'"
    using s'(1) by (simp add: mountItems_Cons itemFor_found [OF found] s1_def)
  moreover have "visible s' = visible s @
      map (\<lambda>j. \<lparr>item = cs ! j, itemID = int (index + j) + minItem\<rparr>) [0..<length (a # vm)]"
    using s'(2) by (simp add: s1_def cs map_upt_shift del: upt_Suc upt.simps)
  moreover have "children s' = children s @ cs"
    using s'(3) by (simp add: s1_def cs)
  ultimately show ?case
    using s'(4,5,6) by (simp add: s1_def)
qed

lemma releaseItems_none:
  "(\<forall>w \<in> set was. searchVisible (visible s) (itemID w) \<noteq> None) \<Longrightarrow> releaseItems was s = s"
  by (induction was) (auto split: option.splits)

lemma poolEvents_simps [simp]:
  "poolEvents (s\<lparr>visible := v\<rparr>) = poolEvents s"
  "poolEvents (s\<lparr>children := c\<rparr>) = poolEvents s"
  "poolEvents (s\<lparr>separators := sp\<rparr>) = poolEvents s"
  "poolEvents (s\<lparr>Objects := ob\<rparr>) = poolEvents s"
  "poolEvents (s\<lparr>visibleItemMeasures := vm\<rparr>) = poolEvents s"
  "poolEvents (setupListItem li i f s) = poolEvents s"
  "poolEvents (logMissing s) = poolEvents s"
  by (simp_all add: poolEvents_def setupListItem_def logMissing_def Let_def)

lemma poolEvents_setupItems [simp]:
  "poolEvents (setupItems n was vis s) = poolEvents s"
  by (induction vis arbitrary: s) simp_all

lemma poolEvents_events: "events s' = events s \<Longrightarrow> poolEvents s' = poolEvents s"
  by (simp add: poolEvents_def)

lemma finishUpdate_kept:
  assumes "\<forall>w \<in> set was. searchVisible (visible s) (itemID w) \<noteq> None"
  shows "\<exists>s'. finishUpdate n was s = Inr s' \<and> visible s' = visible s \<and> children s' = children s
        \<and> itemPool s' = itemPool s \<and> nextItem s' = nextItem s \<and> poolEvents s' = poolEvents s"
proof -
  have rel: "releaseItems was s = s"
    using assms by (rule releaseItems_none)
  from updateSeparators_result [of s] obtain s3 where
    s3: "updateSeparators s = Inr s3" "s3 = s\<lparr>separators := separators s3\<rparr>"
    by blast
  have same: "visible s3 = visible s" "children s3 = children s" "itemPool s3 = itemPool s"
    "nextItem s3 = nextItem s" "poolEvents s3 = poolEvents s"
    by (subst s3(2), simp)+
  show ?thesis
    using s3(1) same by (simp add: finishUpdate_def rel Let_def)
qed

lemma listItemAndID_nth_eq:
  assumes "map itemID vis = map (\<lambda>j. int j + minItem) [0..<n]"
  shows "map (\<lambda>j. \<lparr>item = map item vis ! j, itemID = int (0 + j) + minItem\<rparr>) [0..<n] = vis"
proof -
  have len: "length vis = n"
    using assms by (metis length_map length_upt minus_nat.diff_0)
  have "itemID (vis ! j) = int j + minItem" if "j < n" for j
  proof -
    have "map itemID vis ! j = map (\<lambda>j. int j + minItem) [0..<n] ! j" using assms by simp
    then show ?thesis using that len by simp
  qed
  then show ?thesis
    using len by (intro nth_equalityI) simp_all
qed

lemma measures_inputsOf:
  assumes "inputsOf s' = inputsOf s"
  shows "templateMeasure s' = templateMeasure s" "listLength s' = listLength s"
    "crossMeasure s' = crossMeasure s" "themePadding s' = themePadding s"
  using assms by (simp_all add: inputsOf_def templateMeasure_def listLength_def crossMeasure_def)

lemma strictlyAscending_window:
  "map itemID vis = map (\<lambda>j. int j + minItem) [0..<n] \<Longrightarrow> strictlyAscending vis"
  using windowIndices_ascending [of 0 minItem n] by (simp add: strictlyAscending_def)

lemma searchVisible_member:
  assumes "strictlyAscending vis" and "w \<in> set vis"
  shows "searchVisible vis (itemID w) = Some (item w)"
proof -
  from assms(2) obtain k where "k < length vis" "vis ! k = w"
    by (auto simp: in_set_conv_nth)
  with searchVisible_found [OF assms(1), of k] show ?thesis by simp
qed

text \<open>
  Claim C8. A recompute that follows a recompute that returned, with nothing changed in
  between, returns as well and leaves the same visible set, the same indices with the
  same item instances, and the same children; the pool holds the same instances, no
  instance was allocated, and the trace records no call of the pool or the factory.
\<close>

theorem recompute_idempotent:
  assumes first: "updateList n1 s = Inr s1"
  shows "\<exists>s2. updateList n2 s1 = Inr s2
           \<and> visible s2 = visible s1 \<and> children s2 = children s1
           \<and> itemPool s2 = itemPool s1 \<and> nextItem s2 = nextItem s1
           \<and> poolEvents s2 = poolEvents s1"
proof -
  have inp: "inputsOf s1 = inputsOf s"
    by (rule inputsOf_updateList [OF first])
  note same = measures_inputsOf [OF inp]
  have inpl: "inputsOf (logMissing s1) = inputsOf (logMissing s)"
    using inp by simp
  from first show ?thesis
  proof (cases rule: updateList_cases)
    case (early off minItem)
    have "calculateVisibleItemMeasures (templateMeasure s1) (listLength s1) (logMissing s1)
            = Inr ((off, minItem), logMissing s1)"
      unfolding same by (rule calculate_stable [OF early(1) inpl]) simp
    then have "updateList n2 s1 = Inr (logMissing s1)"
      using early(2,3) by (simp add: updateList_eq same)
    then show ?thesis by simp
  next
    case (full off minItem x1 x2)
    note res = updateList_full [OF full(1,2) first]
    define V where "V = visible s1"
    have asc: "strictlyAscending V"
      using res(1) unfolding V_def by (rule strictlyAscending_window)
    have lenV: "length V = length (visibleItemMeasures s1)"
      using res(1,3) unfolding V_def by (metis length_map length_upt minus_nat.diff_0)
    have calc: "calculateVisibleItemMeasures (templateMeasure s1) (listLength s1) (logMissing s1)
            = Inr ((off, minItem), logMissing s1)"
      unfolding same by (rule calculate_stable [OF full(1) inpl]) (simp add: res(3))
    have notearly: "\<not> (visibleItemMeasures (logMissing s1) = [] \<and> listLength s1 > 0)"
      using full(2) by (simp add: res(3) same)
    have found: "\<forall>j < length (visibleItemMeasures s1).
            searchVisible V (int (0 + j) + minItem) = Some (map item V ! j)"
    proof (intro allI impI)
      fix j assume j: "j < length (visibleItemMeasures s1)"
      then have "map itemID V ! j = int j + minItem"
        using res(1,3) unfolding V_def by simp
      then have "itemID (V ! j) = int j + minItem"
        using j lenV by simp
      with searchVisible_found [OF asc, of j] j lenV
      show "searchVisible V (int (0 + j) + minItem) = Some (map item V ! j)" by simp
    qed
    have "length (map item V) = length (visibleItemMeasures s1)"
      using lenV by simp
    from mountItems_found [OF this found,
        of "crossMeasure s1" "themePadding s1" off "(logMissing s1)\<lparr>visible := [], children := []\<rparr>"]
    obtain u where
      u: "mountItems V minItem (crossMeasure s1) (themePadding s1) 0 off
            (visibleItemMeasures s1) ((logMissing s1)\<lparr>visible := [], children := []\<rparr>) = Inr u"
        "visible u = map (\<lambda>j. \<lparr>item = map item V ! j, itemID = int (0 + j) + minItem\<rparr>)
                       [0..<length (visibleItemMeasures s1)]"
        "children u = map item V" "itemPool u = itemPool s1" "nextItem u = nextItem s1"
        "events u = events (logMissing s1)"
      by auto
    have visu: "visible u = V"
      unfolding u(2) by (rule listItemAndID_nth_eq) (use res(1,3) V_def in simp)
    have kept: "\<forall>w \<in> set V. searchVisible (visible u) (itemID w) \<noteq> None"
      using searchVisible_member [OF asc] by (simp add: visu)
    from finishUpdate_kept [OF kept, of n2] obtain s2 where
      s2: "finishUpdate n2 V u = Inr s2" "visible s2 = visible u" "children s2 = children u"
        "itemPool s2 = itemPool u" "nextItem s2 = nextItem u" "poolEvents s2 = poolEvents u"
      by blast
    have "updateList n2 s1 = Inr s2"
      using calc notearly u(1) s2(1) by (auto simp: updateList_eq V_def)
    moreover have "poolEvents u = poolEvents s1"
      using poolEvents_events [OF u(6)] by simp
    ultimately show ?thesis
      using s2 u(3,4,5) visu res(2) by (simp add: V_def)
  qed
qed

theorem recompute_idempotent_witness:
  "\<exists>s1 s2. updateList True uniformList = Inr s1 \<and> length (visible s1) = 6
      \<and> updateList True s1 = Inr s2
      \<and> visible s2 = visible s1 \<and> children s2 = children s1
      \<and> itemPool s2 = itemPool s1 \<and> nextItem s2 = nextItem s1
      \<and> poolEvents s2 = poolEvents s1"
proof -
  obtain s1 where u: "updateList True uniformList = Inr s1"
    using uniformList_returns by blast
  have "length (map itemID (visible s1)) = 6"
    by (subst updateList_full(1) [OF uniformList_calc _ u]) simp_all
  then have "length (visible s1) = 6" by simp
  with recompute_idempotent [OF u, of True] u show ?thesis by blast
qed

subsection \<open>The visible set stays ascending under every operation\<close>

lemma updateList_ascending:
  assumes "strictlyAscending (visible s)" and "updateList newOnly s = Inr s'"
  shows "strictlyAscending (visible s')"
  using updateList_visible_ids [OF assms(2)]
proof
  assume "map itemID (visible s') = map itemID (visible s)"
  then show ?thesis using assms(1) by (simp add: strictlyAscending_def)
next
  assume "\<exists>minItem. map itemID (visible s')
             = map (\<lambda>j. int j + minItem) [0..<length (visibleItemMeasures s')]"
  then show ?thesis
    using strictlyAscending_window by blast
qed

lemma offsetUpdated_ascending:
  assumes "strictlyAscending (visible s)" and "offsetUpdated pos s = Inr s'"
  shows "strictlyAscending (visible s')"
proof (cases "offset s = (if orientation s = Horizontal then X pos else Y pos)")
  case True
  then show ?thesis using assms by (simp add: offsetUpdated_def Let_def)
next
  case False
  then have "updateList True (s\<lparr>offset := (if orientation s = Horizontal then X pos else Y pos)\<rparr>) = Inr s'"
    using assms(2) by (simp add: offsetUpdated_def Let_def)
  from updateList_ascending [OF _ this] assms(1) show ?thesis by simp
qed

lemma scrollTo_ascending:
  assumes "strictlyAscending (visible s)" and "scrollTo ident s = Inr s'"
  shows "strictlyAscending (visible s')"
proof (cases "scroller s")
  case None
  then show ?thesis using assms by (simp add: scrollTo_def)
next
  case (Some sc)
  then obtain pos sc' where "offsetUpdated pos (s\<lparr>scroller := Some sc'\<rparr>) = Inr s'"
    using assms(2) by (auto simp: scrollTo_def Let_def split: prod.splits)
  from offsetUpdated_ascending [OF _ this] assms(1) show ?thesis by simp
qed

lemma Refresh_ascending:
  assumes "strictlyAscending (visible s)" and "Refresh s = Inr s'"
  shows "strictlyAscending (visible s')"
proof (cases "scroller s")
  case None
  then show ?thesis using assms by (simp add: Refresh_def)
next
  case (Some sc)
  then obtain t where t: "updateList False t = Inr s'" "visible t = visible s"
    using assms(2)
    by (auto simp: Refresh_def listRendererRefresh_def createItemAndApplyThemeScope_def Let_def
          split: option.splits)
  from updateList_ascending [OF _ t(1)] assms(1) t(2) show ?thesis by simp
qed

lemma RefreshItem_ascending:
  assumes "strictlyAscending (visible s)" and "RefreshItem ident s = Inr s'"
  shows "strictlyAscending (visible s')"
proof (cases "scroller s")
  case None
  then show ?thesis using assms by (simp add: RefreshItem_def)
next
  case (Some sc)
  then obtain s1 where r: "Refresh s = Inr s1" and v: "visible s' = visible s1"
    using assms(2) by (auto simp: RefreshItem_def split: sum.splits option.splits)
  from Refresh_ascending [OF assms(1) r] v show ?thesis by simp
qed

lemma Select_ascending:
  assumes "strictlyAscending (visible s)" and "Select ident s = Inr s'"
  shows "strictlyAscending (visible s')"
proof (cases "s' = s")
  case True
  then show ?thesis using assms(1) by simp
next
  case False
  then obtain s2 s3 where
    s2: "scrollTo ident (s\<lparr>selected := [ident]\<rparr>) = Inr s2"
    and s3: "Refresh s2 = Inr s3" and v: "visible s' = visible s3"
    using assms(2) by (auto simp: Select_def Let_def split: sum.splits if_splits)
  have "strictlyAscending (visible s2)"
    by (rule scrollTo_ascending [OF _ s2]) (use assms(1) in simp)
  from Refresh_ascending [OF this s3] v show ?thesis by simp
qed

lemma ScrollTo_ascending:
  assumes "strictlyAscending (visible s)" and "ScrollTo ident s = Inr s'"
  shows "strictlyAscending (visible s')"
proof (cases "s' = s")
  case True
  then show ?thesis using assms(1) by simp
next
  case False
  then obtain s1 where s1: "scrollTo ident s = Inr s1" and r: "Refresh s1 = Inr s'"
    using assms(2) by (auto simp: ScrollTo_def Let_def split: sum.splits if_splits)
  from Refresh_ascending [OF scrollTo_ascending [OF assms(1) s1] r] show ?thesis .
qed

lemma SetItemMeasure_ascending:
  assumes "strictlyAscending (visible s)" and "SetItemMeasure ident m s = Inr s'"
  shows "strictlyAscending (visible s')"
proof (cases "SetItemMeasure_refresh ident m s")
  case True
  then have "RefreshItem ident (s\<lparr>itemMeasures := AList.update ident m (itemMeasures s)\<rparr>) = Inr s'"
    using assms(2) by (simp add: SetItemMeasure_def Let_def)
  from RefreshItem_ascending [OF _ this] assms(1) show ?thesis by simp
next
  case False
  then show ?thesis using assms by (auto simp: SetItemMeasure_def Let_def)
qed

end
